theory Spec2Isabelle
  imports Main "HOL-Library.AList"
begin

section \<open>Errors and dictionaries\<close>

text \<open>
  Every exception the modelled Python can raise is a value. \<open>CouldntFindAnnouncement net
  ann_source anns\<close> is the \<open>AssertionError\<close> of \<open>partial_eval_propagated_info\<close> whose
  message is formatted from the prefix, the origin router and its current announcements.
\<close>

type_synonym node = string
type_synonym prefix = string
type_synonym asn = int

record announcement =
  ann_prefix :: prefix
  ann_as_path :: "asn list"

datatype error =
    ValueError
  | KeyError
  | AssertionError
  | IndexError
  | UnboundLocalError
  | CouldntFindAnnouncement prefix node "announcement list"

definition ebind :: "error + 'a \<Rightarrow> ('a \<Rightarrow> error + 'b) \<Rightarrow> error + 'b" where
  "ebind m f = (case m of Inl e \<Rightarrow> Inl e | Inr v \<Rightarrow> f v)"

text \<open>A \<open>for\<close> loop whose body may raise: the first error ends the loop.\<close>

primrec foldM :: "('a \<Rightarrow> 's \<Rightarrow> error + 's) \<Rightarrow> 'a list \<Rightarrow> 's \<Rightarrow> error + 's" where
  "foldM f [] s = Inr s"
| "foldM f (x # xs) s = ebind (f x s) (foldM f xs)"

text \<open>
  A Python \<open>dict\<close> is an association list with distinct keys in insertion order:
  \<open>d[k] = v\<close> is \<open>AList.update k v d\<close>, \<open>d[k]\<close> is \<open>dict_get d k\<close>.
\<close>

definition dict_get :: "('k \<times> 'v) list \<Rightarrow> 'k \<Rightarrow> error + 'v" where
  "dict_get d k = (case map_of d k of None \<Rightarrow> Inl KeyError | Some v \<Rightarrow> Inr v)"

section \<open>tekton/graph.py: the typed topology graph\<close>

datatype VERTEXTYPE = ROUTER | NETWORK | PEER

datatype EDGETYPE = ROUTER_EDGE | NETWORK_EDGE | PEER_EDGE

text \<open>
  The \<open>'bgp'\<close> attribute dictionary of a node: the AS number, the keys of the neighbour
  dictionary in insertion order, and the keys of the \<open>'advertise'\<close> dictionary.
\<close>

record bgp_attrs =
  asnum :: "asn option"
  neighbors :: "node list"
  advertise :: "announcement list"

text \<open>
  The attribute dictionary of a node. \<open>VERTEX_TYPE\<close> is absent on a node that
  \<open>networkx\<close> created as the endpoint of an edge.
\<close>

record node_attrs =
  vertex_type :: "VERTEXTYPE option"
  bgp :: "bgp_attrs option"

text \<open>
  \<open>networkx.DiGraph\<close>: the node dictionary \<open>_node\<close> and the directed edges with their
  attributes, both in insertion order.
\<close>

record NetworkGraph =
  node_tab :: "(node \<times> node_attrs) list"
  edge_tab :: "((node \<times> node) \<times> EDGETYPE) list"

definition empty_graph :: NetworkGraph where
  "empty_graph = \<lparr>node_tab = [], edge_tab = []\<rparr>"

definition has_node :: "NetworkGraph \<Rightarrow> node \<Rightarrow> bool" where
  "has_node g n = (map_of (node_tab g) n \<noteq> None)"

definition nodes :: "NetworkGraph \<Rightarrow> node list" where
  "nodes g = map fst (node_tab g)"

definition has_edge :: "NetworkGraph \<Rightarrow> node \<Rightarrow> node \<Rightarrow> bool" where
  "has_edge g u v = (map_of (edge_tab g) (u, v) \<noteq> None)"

text \<open>\<open>DiGraph.neighbors(n)\<close>: the successors of \<open>n\<close>.\<close>

definition graph_neighbors :: "NetworkGraph \<Rightarrow> node \<Rightarrow> node list" where
  "graph_neighbors g n = map (snd \<circ> fst) (filter (\<lambda>e. fst (fst e) = n) (edge_tab g))"

text \<open>
  \<open>DiGraph.add_node(n, **attr)\<close>: a new node gets the attributes, an existing node has
  its attribute dictionary updated with them.
\<close>

definition nx_add_node :: "NetworkGraph \<Rightarrow> node \<Rightarrow> VERTEXTYPE option \<Rightarrow> NetworkGraph" where
  "nx_add_node g n t =
     (case map_of (node_tab g) n of
        None \<Rightarrow> g\<lparr>node_tab := node_tab g @ [(n, \<lparr>vertex_type = t, bgp = None\<rparr>)]\<rparr>
      | Some a \<Rightarrow>
          (case t of
             None \<Rightarrow> g
           | Some ty \<Rightarrow> g\<lparr>node_tab := AList.update n (a\<lparr>vertex_type := Some ty\<rparr>) (node_tab g)\<rparr>))"

text \<open>\<open>DiGraph.add_edge(u, v, **attr)\<close> creates missing endpoints with no attributes.\<close>

definition nx_add_edge :: "NetworkGraph \<Rightarrow> node \<Rightarrow> node \<Rightarrow> EDGETYPE \<Rightarrow> NetworkGraph" where
  "nx_add_edge g u v t =
     (let g1 = nx_add_node (nx_add_node g u None) v None
      in g1\<lparr>edge_tab := AList.update (u, v) t (edge_tab g1)\<rparr>)"

text \<open>
  \<open>NetworkGraph.add_node(n, **attr)\<close>; the argument is the \<open>VERTEX_TYPE\<close> entry of
  \<open>attr\<close> when it has one.
\<close>

definition add_node :: "NetworkGraph \<Rightarrow> node \<Rightarrow> VERTEXTYPE option \<Rightarrow> error + NetworkGraph" where
  "add_node g n attr =
     (case attr of
        None \<Rightarrow> Inl ValueError
      | Some t \<Rightarrow> Inr (nx_add_node g n (Some t)))"

definition add_router :: "NetworkGraph \<Rightarrow> node \<Rightarrow> error + NetworkGraph" where
  "add_router g router = add_node g router (Some ROUTER)"

definition add_peer :: "NetworkGraph \<Rightarrow> node \<Rightarrow> error + NetworkGraph" where
  "add_peer g router = add_node g router (Some PEER)"

definition add_network :: "NetworkGraph \<Rightarrow> node \<Rightarrow> error + NetworkGraph" where
  "add_network g network = add_node g network (Some NETWORK)"

text \<open>\<open>self._node[node][VERTEX_TYPE] == t\<close> behind the \<open>has_node\<close> guard.\<close>

definition vertex_is :: "NetworkGraph \<Rightarrow> node \<Rightarrow> VERTEXTYPE \<Rightarrow> error + bool" where
  "vertex_is g n t =
     (case map_of (node_tab g) n of
        None \<Rightarrow> Inr False
      | Some a \<Rightarrow> (case vertex_type a of None \<Rightarrow> Inl KeyError | Some ty \<Rightarrow> Inr (ty = t)))"

definition is_peer :: "NetworkGraph \<Rightarrow> node \<Rightarrow> error + bool" where
  "is_peer g n = vertex_is g n PEER"

definition is_local_router :: "NetworkGraph \<Rightarrow> node \<Rightarrow> error + bool" where
  "is_local_router g n = vertex_is g n ROUTER"

definition is_network :: "NetworkGraph \<Rightarrow> node \<Rightarrow> error + bool" where
  "is_network g n = vertex_is g n NETWORK"

text \<open>Python's \<open>a or b\<close>: \<open>b\<close> is evaluated only when \<open>a\<close> is false.\<close>

definition por :: "error + bool \<Rightarrow> error + bool \<Rightarrow> error + bool" where
  "por a b = ebind a (\<lambda>x. if x then Inr True else b)"

definition is_router :: "NetworkGraph \<Rightarrow> node \<Rightarrow> error + bool" where
  "is_router g n = por (is_peer g n) (is_local_router g n)"

text \<open>\<open>assert c\<close>.\<close>

definition passert :: "error + bool \<Rightarrow> error + unit" where
  "passert c = ebind c (\<lambda>b. if b then Inr () else Inl AssertionError)"

text \<open>
  \<open>NetworkGraph.add_edge(u, v, **attr)\<close>; the argument is the \<open>EDGE_TYPE\<close> entry of
  \<open>attr\<close> when it has one.
\<close>

definition add_edge :: "NetworkGraph \<Rightarrow> node \<Rightarrow> node \<Rightarrow> EDGETYPE option \<Rightarrow> error + NetworkGraph" where
  "add_edge g u v attr =
     (case attr of
        None \<Rightarrow> Inl ValueError
      | Some t \<Rightarrow> Inr (nx_add_edge g u v t))"

definition add_router_edge :: "NetworkGraph \<Rightarrow> node \<Rightarrow> node \<Rightarrow> error + NetworkGraph" where
  "add_router_edge g u v =
     ebind (passert (is_local_router g u)) (\<lambda>_.
     ebind (passert (is_local_router g u)) (\<lambda>_.
     add_edge g u v (Some ROUTER_EDGE)))"

definition add_peer_edge :: "NetworkGraph \<Rightarrow> node \<Rightarrow> node \<Rightarrow> error + NetworkGraph" where
  "add_peer_edge g u v =
     ebind (passert (por (is_peer g u) (is_peer g v))) (\<lambda>_.
     ebind (passert (por (is_router g u) (is_router g v))) (\<lambda>_.
     add_edge g u v (Some PEER_EDGE)))"

definition add_network_edge :: "NetworkGraph \<Rightarrow> node \<Rightarrow> node \<Rightarrow> error + NetworkGraph" where
  "add_network_edge g u v =
     ebind (passert (por (is_router g u) (is_router g v))) (\<lambda>_.
     ebind (passert (por (is_network g u) (is_network g v))) (\<lambda>_.
     add_edge g u v (Some NETWORK_EDGE)))"

text \<open>
  \<open>get_bgp_attrs\<close> asserts that the node is a router and returns its \<open>'bgp'\<close>
  dictionary. The source stores the default dictionary on the node at the first access;
  the stored default is the value returned here for an absent entry, so every later read
  sees the same attributes and the graph is passed unchanged.
\<close>

definition default_bgp :: bgp_attrs where
  "default_bgp = \<lparr>asnum = None, neighbors = [], advertise = []\<rparr>"

definition get_bgp_attrs :: "NetworkGraph \<Rightarrow> node \<Rightarrow> error + bgp_attrs" where
  "get_bgp_attrs g n =
     ebind (passert (is_router g n)) (\<lambda>_.
     ebind (dict_get (node_tab g) n) (\<lambda>a.
     Inr (case bgp a of None \<Rightarrow> default_bgp | Some b \<Rightarrow> b)))"

definition get_bgp_asnum :: "NetworkGraph \<Rightarrow> node \<Rightarrow> error + asn option" where
  "get_bgp_asnum g n = ebind (get_bgp_attrs g n) (\<lambda>b. Inr (asnum b))"

definition is_bgp_enabled :: "NetworkGraph \<Rightarrow> node \<Rightarrow> error + bool" where
  "is_bgp_enabled g n = ebind (get_bgp_asnum g n) (\<lambda>a. Inr (a \<noteq> None))"

definition get_bgp_neighbors :: "NetworkGraph \<Rightarrow> node \<Rightarrow> error + node list" where
  "get_bgp_neighbors g n = ebind (get_bgp_attrs g n) (\<lambda>b. Inr (neighbors b))"

definition get_bgp_advertise :: "NetworkGraph \<Rightarrow> node \<Rightarrow> error + announcement list" where
  "get_bgp_advertise g n = ebind (get_bgp_attrs g n) (\<lambda>b. Inr (advertise b))"

text \<open>\<open>routers_iter\<close>: the nodes for which \<open>is_router\<close> holds, in node order.\<close>

definition routers_iter :: "NetworkGraph \<Rightarrow> error + node list" where
  "routers_iter g =
     foldM (\<lambda>n acc. ebind (is_router g n) (\<lambda>b. Inr (if b then acc @ [n] else acc)))
           (nodes g) []"

section \<open>networkx.Graph: the undirected graphs of zones and of merged propagation\<close>

text \<open>
  An undirected graph keeps its nodes in insertion order and each edge once, whichever
  way round it was added; \<open>number_of_edges\<close> counts each edge once.
\<close>

record 'n ugraph =
  ug_nodes :: "'n list"
  ug_edges :: "('n \<times> 'n) list"

definition ug_empty :: "'n ugraph" where
  "ug_empty = \<lparr>ug_nodes = [], ug_edges = []\<rparr>"

definition ug_add_node :: "'n ugraph \<Rightarrow> 'n \<Rightarrow> 'n ugraph" where
  "ug_add_node g n = (if n \<in> set (ug_nodes g) then g else g\<lparr>ug_nodes := ug_nodes g @ [n]\<rparr>)"

definition ug_has_edge :: "'n ugraph \<Rightarrow> 'n \<Rightarrow> 'n \<Rightarrow> bool" where
  "ug_has_edge g u v = ((u, v) \<in> set (ug_edges g) \<or> (v, u) \<in> set (ug_edges g))"

definition ug_add_edge :: "'n ugraph \<Rightarrow> 'n \<Rightarrow> 'n \<Rightarrow> 'n ugraph" where
  "ug_add_edge g u v =
     (let g1 = ug_add_node (ug_add_node g u) v
      in if ug_has_edge g1 u v then g1 else g1\<lparr>ug_edges := ug_edges g1 @ [(u, v)]\<rparr>)"

definition ug_size :: "'n ugraph \<Rightarrow> nat \<times> nat" where
  "ug_size g = (length (ug_nodes g), length (ug_edges g))"

section \<open>synet/synthesis/new\_propagation.py: iBGP zones\<close>

text \<open>\<open>asmap[asnum].append(node)\<close>, creating the list at the first router of an AS.\<close>

definition asmap_append :: "(asn \<times> node list) list \<Rightarrow> asn \<Rightarrow> node \<Rightarrow> (asn \<times> node list) list" where
  "asmap_append asmap k n =
     (case map_of asmap k of
        None \<Rightarrow> AList.update k [n] asmap
      | Some ns \<Rightarrow> AList.update k (ns @ [n]) asmap)"

text \<open>
  The body of the first loop of \<open>extract_ibgp_zones\<close>. A BGP-enabled router has an AS
  number, so the \<open>None\<close> branch below is never taken.
\<close>

definition asmap_step :: "NetworkGraph \<Rightarrow> node \<Rightarrow> (asn \<times> node list) list \<Rightarrow> error + (asn \<times> node list) list" where
  "asmap_step g n asmap =
     ebind (is_bgp_enabled g n) (\<lambda>en.
       if en then
         ebind (get_bgp_asnum g n) (\<lambda>a.
           case a of None \<Rightarrow> Inr asmap | Some k \<Rightarrow> Inr (asmap_append asmap k n))
       else Inr asmap)"

definition build_asmap :: "NetworkGraph \<Rightarrow> error + (asn \<times> node list) list" where
  "build_asmap g = ebind (routers_iter g) (\<lambda>rs. foldM (asmap_step g) rs [])"

text \<open>The body of the loop over the neighbours of one zone node.\<close>

definition zone_neighbor_step :: "NetworkGraph \<Rightarrow> asn \<Rightarrow> node \<Rightarrow> node \<Rightarrow> node ugraph \<Rightarrow> error + node ugraph" where
  "zone_neighbor_step g k n neighbor zg =
     ebind (is_router g neighbor) (\<lambda>r.
       if \<not> r then Inr zg
       else ebind (is_bgp_enabled g neighbor) (\<lambda>en.
         if en then
           ebind (get_bgp_asnum g neighbor) (\<lambda>a.
             if a = Some k then Inr (ug_add_edge zg n neighbor) else Inr zg)
         else Inr (ug_add_edge zg n neighbor)))"

definition zone_node_step :: "NetworkGraph \<Rightarrow> asn \<Rightarrow> node \<Rightarrow> node ugraph \<Rightarrow> error + node ugraph" where
  "zone_node_step g k n zg = foldM (zone_neighbor_step g k n) (graph_neighbors g n) zg"

text \<open>One pass of the \<open>while\<close> loop: the loop over \<open>ibgp_nodes\<close>.\<close>

definition zone_pass :: "NetworkGraph \<Rightarrow> asn \<Rightarrow> node list \<Rightarrow> node ugraph \<Rightarrow> error + node ugraph" where
  "zone_pass g k ibgp_nodes zg = foldM (zone_node_step g k) ibgp_nodes zg"

subsection \<open>Termination of the zone fixed point\<close>

lemma ebind_Inr_iff: "ebind m f = Inr y \<longleftrightarrow> (\<exists>v. m = Inr v \<and> f v = Inr y)"
  by (cases m) (auto simp: ebind_def)

lemma foldM_inv:
  assumes "foldM f xs s = Inr s'" and "P s"
    and "\<And>x s t. x \<in> set xs \<Longrightarrow> P s \<Longrightarrow> f x s = Inr t \<Longrightarrow> P t"
  shows "P s'"
  using assms
proof (induction xs arbitrary: s)
  case Nil
  then show ?case by simp
next
  case (Cons x xs)
  from Cons.prems(1) obtain t where t: "f x s = Inr t" "foldM f xs t = Inr s'"
    by (auto simp: ebind_Inr_iff)
  have "P t" using Cons.prems(2,3) t(1) by auto
  then show ?case using Cons.IH [OF t(2)] Cons.prems(3) by auto
qed

definition ug_missing :: "'n set \<Rightarrow> 'n ugraph \<Rightarrow> nat" where
  "ug_missing U zg = card (U - set (ug_nodes zg)) + card (U \<times> U - {(u, v). ug_has_edge zg u v})"

definition ug_ext :: "'n set \<Rightarrow> 'n ugraph \<Rightarrow> 'n ugraph \<Rightarrow> bool" where
  "ug_ext U zg zg' = (set (ug_nodes zg') \<subseteq> U \<and> (zg' = zg \<or> ug_missing U zg' < ug_missing U zg))"

lemma ug_add_node_ext:
  assumes "finite U" "n \<in> U" "set (ug_nodes zg) \<subseteq> U"
  shows "ug_ext U zg (ug_add_node zg n)"
proof (cases "n \<in> set (ug_nodes zg)")
  case True
  then show ?thesis using assms by (simp add: ug_ext_def ug_add_node_def)
next
  case False
  have "card (U - set (ug_nodes zg @ [n])) < card (U - set (ug_nodes zg))"
    using assms False by (intro psubset_card_mono) auto
  then show ?thesis using assms False
    by (simp add: ug_ext_def ug_add_node_def ug_missing_def ug_has_edge_def)
qed

lemma ug_ext_trans:
  assumes "ug_ext U a b" "ug_ext U b c"
  shows "ug_ext U a c"
  using assms by (auto simp: ug_ext_def)

lemma ug_add_edge_ext:
  assumes "finite U" "u \<in> U" "v \<in> U" "set (ug_nodes zg) \<subseteq> U"
  shows "ug_ext U zg (ug_add_edge zg u v)"
proof -
  let ?g1 = "ug_add_node (ug_add_node zg u) v"
  have a: "ug_ext U zg (ug_add_node zg u)" using assms by (intro ug_add_node_ext)
  then have "set (ug_nodes (ug_add_node zg u)) \<subseteq> U" by (simp add: ug_ext_def)
  then have "ug_ext U (ug_add_node zg u) ?g1" using assms by (intro ug_add_node_ext)
  with a have g1: "ug_ext U zg ?g1" by (rule ug_ext_trans)
  show ?thesis
  proof (cases "ug_has_edge ?g1 u v")
    case True
    then show ?thesis using g1 by (simp add: ug_add_edge_def)
  next
    case False
    let ?g2 = "?g1\<lparr>ug_edges := ug_edges ?g1 @ [(u, v)]\<rparr>"
    have "U \<times> U - {(a, b). ug_has_edge ?g2 a b} \<subset> U \<times> U - {(a, b). ug_has_edge ?g1 a b}"
      using False assms by (auto simp: ug_has_edge_def)
    moreover have "finite (U \<times> U - {(a, b). ug_has_edge ?g1 a b})" using assms by simp
    ultimately have "card (U \<times> U - {(a, b). ug_has_edge ?g2 a b}) < card (U \<times> U - {(a, b). ug_has_edge ?g1 a b})"
      by (rule psubset_card_mono [rotated])
    then have "ug_ext U ?g1 ?g2" using g1 by (simp add: ug_ext_def ug_missing_def)
    with g1 have "ug_ext U zg ?g2" by (rule ug_ext_trans)
    then show ?thesis using False by (simp add: ug_add_edge_def Let_def)
  qed
qed


lemma ug_ext_refl: "set (ug_nodes zg) \<subseteq> U \<Longrightarrow> ug_ext U zg zg"
  by (simp add: ug_ext_def)

lemma zone_neighbor_step_ext:
  assumes "zone_neighbor_step g k n nb z = Inr z'" "finite U" "n \<in> U" "nb \<in> U"
    "set (ug_nodes z) \<subseteq> U"
  shows "ug_ext U z z'"
proof -
  have "z' = z \<or> z' = ug_add_edge z n nb"
    using assms(1)
    by (auto simp: zone_neighbor_step_def ebind_Inr_iff split: if_splits)
  then show ?thesis
    using ug_add_edge_ext [OF assms(2,3,4,5)] ug_ext_refl [OF assms(5)] by auto
qed

lemma graph_neighbors_targets: "set (graph_neighbors g n) \<subseteq> snd ` fst ` set (edge_tab g)"
  by (auto simp: graph_neighbors_def)

lemma zone_node_step_ext:
  assumes "zone_node_step g k n z = Inr z'" "finite U" "n \<in> U"
    "snd ` fst ` set (edge_tab g) \<subseteq> U" "set (ug_nodes z) \<subseteq> U"
  shows "ug_ext U z z'"
proof -
  have "foldM (zone_neighbor_step g k n) (graph_neighbors g n) z = Inr z'"
    using assms(1) by (simp add: zone_node_step_def)
  then show ?thesis
  proof (rule foldM_inv [where P = "\<lambda>y. ug_ext U z y"])
    show "ug_ext U z z" using assms(5) by (rule ug_ext_refl)
  next
    fix x s t
    assume x: "x \<in> set (graph_neighbors g n)" and s: "ug_ext U z s"
      and t: "zone_neighbor_step g k n x s = Inr t"
    have "x \<in> U" using x graph_neighbors_targets assms(4) by blast
    moreover have "set (ug_nodes s) \<subseteq> U" using s by (simp add: ug_ext_def)
    ultimately have "ug_ext U s t" using t assms(2,3) by (intro zone_neighbor_step_ext)
    with s show "ug_ext U z t" by (rule ug_ext_trans)
  qed
qed

lemma zone_pass_ext:
  assumes "zone_pass g k ns z = Inr z'" "finite U" "set ns \<subseteq> U"
    "snd ` fst ` set (edge_tab g) \<subseteq> U" "set (ug_nodes z) \<subseteq> U"
  shows "ug_ext U z z'"
proof -
  have "foldM (zone_node_step g k) ns z = Inr z'"
    using assms(1) by (simp add: zone_pass_def)
  then show ?thesis
  proof (rule foldM_inv [where P = "\<lambda>y. ug_ext U z y"])
    show "ug_ext U z z" using assms(5) by (rule ug_ext_refl)
  next
    fix x s t
    assume x: "x \<in> set ns" and s: "ug_ext U z s" and t: "zone_node_step g k x s = Inr t"
    have "set (ug_nodes s) \<subseteq> U" using s by (simp add: ug_ext_def)
    then have "ug_ext U s t" using t x assms(2,3,4) by (intro zone_node_step_ext) auto
    with s show "ug_ext U z t" by (rule ug_ext_trans)
  qed
qed

lemma ug_missing_mono:
  assumes "finite U" "U' \<subseteq> U"
  shows "ug_missing U' z \<le> ug_missing U z"
proof -
  have "card (U' - set (ug_nodes z)) \<le> card (U - set (ug_nodes z))"
    using assms by (intro card_mono) auto
  moreover have "card (U' \<times> U' - {(u, v). ug_has_edge z u v}) \<le> card (U \<times> U - {(u, v). ug_has_edge z u v})"
    using assms by (intro card_mono) auto
  ultimately show ?thesis by (simp add: ug_missing_def)
qed

definition zone_universe :: "NetworkGraph \<Rightarrow> node list \<Rightarrow> node ugraph \<Rightarrow> node set" where
  "zone_universe g ns z = set ns \<union> set (ug_nodes z) \<union> snd ` fst ` set (edge_tab g)"

definition zone_measure :: "NetworkGraph \<times> asn \<times> node list \<times> node ugraph \<times> (nat \<times> nat) \<Rightarrow> nat" where
  "zone_measure = (\<lambda>(g, k, ns, z, prev).
     2 * ug_missing (zone_universe g ns z) z + (if prev = ug_size z then 0 else 1))"

function zone_grow :: "NetworkGraph \<Rightarrow> asn \<Rightarrow> node list \<Rightarrow> node ugraph \<Rightarrow> nat \<times> nat \<Rightarrow> error + node ugraph" where
  "zone_grow g k ibgp_nodes zg prev_size =
     (case zone_pass g k ibgp_nodes zg of
        Inl e \<Rightarrow> Inl e
      | Inr zg' \<Rightarrow>
          (let new_size = ug_size zg'
           in if new_size \<noteq> prev_size then zone_grow g k (ug_nodes zg') zg' new_size
              else Inr zg'))"
  by pat_completeness auto
termination
proof (relation "measure zone_measure")
  show "wf (measure zone_measure)" by simp
next
  fix g k ibgp_nodes zg prev_size zg' new_size
  assume pass: "zone_pass g k ibgp_nodes zg = Inr zg'"
    and ns: "new_size = ug_size zg'" and neq: "new_size \<noteq> prev_size"
  let ?U = "zone_universe g ibgp_nodes zg"
  let ?U' = "zone_universe g (ug_nodes zg') zg'"
  have fin: "finite ?U" by (simp add: zone_universe_def)
  have ext: "ug_ext ?U zg zg'"
    using pass fin by (rule zone_pass_ext) (auto simp: zone_universe_def)
  then have sub: "?U' \<subseteq> ?U" by (auto simp: ug_ext_def zone_universe_def)
  have le: "ug_missing ?U' zg' \<le> ug_missing ?U zg'" using fin sub by (rule ug_missing_mono)
  from ext consider "zg' = zg" | "ug_missing ?U zg' < ug_missing ?U zg"
    by (auto simp: ug_ext_def)
  then have "zone_measure (g, k, ug_nodes zg', zg', new_size) < zone_measure (g, k, ibgp_nodes, zg, prev_size)"
  proof cases
    case 1
    then show ?thesis using le ns neq by (simp add: zone_measure_def)
  next
    case 2
    then show ?thesis using le ns by (simp add: zone_measure_def)
  qed
  then show "((g, k, ug_nodes zg', zg', new_size), (g, k, ibgp_nodes, zg, prev_size)) \<in> measure zone_measure"
    by simp
qed

declare zone_grow.simps [simp del]

lemma zone_grow_unfold:
  assumes "zone_pass g k ns z = Inr z'"
  shows "zone_grow g k ns z prev =
     (if ug_size z' \<noteq> prev then zone_grow g k (ug_nodes z') z' (ug_size z') else Inr z')"
  using assms by (subst zone_grow.simps) (simp add: Let_def)

lemma zone_grow_Inr_pass:
  assumes "zone_grow g k ns z prev = Inr zr"
  shows "\<exists>z'. zone_pass g k ns z = Inr z'"
  using assms by (subst (asm) zone_grow.simps) (cases "zone_pass g k ns z", auto)


definition zone_for :: "NetworkGraph \<Rightarrow> asn \<Rightarrow> node list \<Rightarrow> error + node ugraph" where
  "zone_for g k ns =
     (let ibgp_graph = foldl ug_add_node ug_empty ns
      in zone_grow g k ns ibgp_graph (ug_size ibgp_graph))"

definition zone_step :: "NetworkGraph \<Rightarrow> asn \<times> node list \<Rightarrow> (asn \<times> node ugraph) list \<Rightarrow> error + (asn \<times> node ugraph) list" where
  "zone_step g = (\<lambda>(k, ns) zones. ebind (zone_for g k ns) (\<lambda>zg. Inr (AList.update k zg zones)))"

definition extract_ibgp_zones :: "NetworkGraph \<Rightarrow> error + (asn \<times> node ugraph) list" where
  "extract_ibgp_zones g = ebind (build_asmap g) (\<lambda>asmap. foldM (zone_step g) asmap [])"

definition all_typed :: "NetworkGraph \<Rightarrow> bool" where
  "all_typed g = list_all (\<lambda>(n, a). vertex_type a \<noteq> None) (node_tab g)"

lemma foldM_total:
  assumes "\<And>x s. x \<in> set xs \<Longrightarrow> \<exists>t. f x s = Inr t"
  shows "\<exists>s'. foldM f xs s = Inr s'"
  using assms
proof (induction xs arbitrary: s)
  case Nil
  then show ?case by simp
next
  case (Cons x xs)
  obtain t where "f x s = Inr t" using Cons.prems [of x s] by auto
  moreover obtain s' where "foldM f xs t = Inr s'" using Cons.IH [of t] Cons.prems by auto
  ultimately show ?case by (auto simp: ebind_def)
qed

lemma vertex_is_typed:
  assumes "all_typed g"
  shows "\<exists>b. vertex_is g n t = Inr b"
proof (cases "map_of (node_tab g) n")
  case None
  then show ?thesis by (auto simp: vertex_is_def)
next
  case (Some a)
  then have "(n, a) \<in> set (node_tab g)" by (rule map_of_SomeD)
  then have "vertex_type a \<noteq> None" using assms by (auto simp: all_typed_def list_all_iff)
  then show ?thesis using Some by (auto simp: vertex_is_def)
qed

lemma is_router_typed:
  assumes "all_typed g"
  shows "\<exists>b. is_router g n = Inr b"
proof -
  obtain b1 b2 where "vertex_is g n PEER = Inr b1" "vertex_is g n ROUTER = Inr b2"
    using vertex_is_typed [OF assms] by blast
  then show ?thesis by (auto simp: is_router_def is_peer_def is_local_router_def por_def ebind_def)
qed

lemma vertex_is_True_has_node: "vertex_is g n t = Inr True \<Longrightarrow> map_of (node_tab g) n \<noteq> None"
  by (auto simp: vertex_is_def split: option.splits)

lemma is_router_True_has_node:
  assumes "is_router g n = Inr True"
  shows "map_of (node_tab g) n \<noteq> None"
proof -
  have "vertex_is g n PEER = Inr True \<or> vertex_is g n ROUTER = Inr True"
    using assms
    by (auto simp: is_router_def is_peer_def is_local_router_def por_def ebind_Inr_iff split: if_splits)
  then show ?thesis using vertex_is_True_has_node by blast
qed

lemma get_bgp_attrs_of_router:
  assumes "is_router g n = Inr True"
  shows "\<exists>b. get_bgp_attrs g n = Inr b"
proof -
  obtain a where "map_of (node_tab g) n = Some a"
    using is_router_True_has_node [OF assms] by auto
  then show ?thesis using assms
    by (simp add: get_bgp_attrs_def passert_def ebind_def dict_get_def)
qed

lemma get_bgp_asnum_of_router:
  assumes "is_router g n = Inr True"
  shows "\<exists>a. get_bgp_asnum g n = Inr a"
  using get_bgp_attrs_of_router [OF assms] by (auto simp: get_bgp_asnum_def ebind_def)

lemma get_bgp_asnum_is_router:
  assumes "get_bgp_asnum g n = Inr a"
  shows "is_router g n = Inr True"
  using assms
  by (auto simp: get_bgp_asnum_def get_bgp_attrs_def passert_def ebind_Inr_iff split: if_splits)

lemma is_bgp_enabled_iff:
  "is_bgp_enabled g n = Inr b \<longleftrightarrow> (\<exists>a. get_bgp_asnum g n = Inr a \<and> b = (a \<noteq> None))"
  by (auto simp: is_bgp_enabled_def ebind_Inr_iff)


subsection \<open>The routers and the AS map\<close>

definition collect_step :: "('a \<Rightarrow> error + bool) \<Rightarrow> 'a \<Rightarrow> 'a list \<Rightarrow> error + 'a list" where
  "collect_step p n acc = ebind (p n) (\<lambda>b. Inr (if b then acc @ [n] else acc))"

lemma collect_step_cases:
  assumes "collect_step p n acc = Inr t"
  shows "(p n = Inr True \<and> t = acc @ [n]) \<or> (p n = Inr False \<and> t = acc)"
proof -
  from assms obtain b where "p n = Inr b" "t = (if b then acc @ [n] else acc)"
    unfolding collect_step_def ebind_Inr_iff by auto
  then show ?thesis by (cases b) simp_all
qed

lemma collect_fold:
  assumes "foldM (collect_step p) xs acc0 = Inr rs"
  shows "m \<in> set rs \<longleftrightarrow> m \<in> set acc0 \<or> (m \<in> set xs \<and> p m = Inr True)"
  using assms
proof (induction xs arbitrary: acc0)
  case Nil
  then show ?case by simp
next
  case (Cons x xs)
  from Cons.prems obtain t where t: "collect_step p x acc0 = Inr t"
    and rest: "foldM (collect_step p) xs t = Inr rs"
    unfolding foldM.simps ebind_Inr_iff by blast
  have ih: "m \<in> set rs \<longleftrightarrow> m \<in> set t \<or> (m \<in> set xs \<and> p m = Inr True)"
    using rest by (rule Cons.IH)
  from collect_step_cases [OF t] show ?case
  proof
    assume "p x = Inr True \<and> t = acc0 @ [x]"
    then show ?thesis using ih by auto
  next
    assume "p x = Inr False \<and> t = acc0"
    then show ?thesis using ih by auto
  qed
qed

lemma routers_iter_set:
  assumes "routers_iter g = Inr rs"
  shows "set rs = {n \<in> set (nodes g). is_router g n = Inr True}"
proof -
  have "foldM (collect_step (is_router g)) (nodes g) [] = Inr rs"
    using assms unfolding routers_iter_def collect_step_def [abs_def] .
  from collect_fold [OF this] show ?thesis by auto
qed

definition in_asmap :: "(asn \<times> node list) list \<Rightarrow> asn \<Rightarrow> node \<Rightarrow> bool" where
  "in_asmap m k n = (\<exists>ns. map_of m k = Some ns \<and> n \<in> set ns)"

lemma in_asmap_append:
  "in_asmap (asmap_append m k n) k' n' \<longleftrightarrow> in_asmap m k' n' \<or> (k' = k \<and> n' = n)"
  by (auto simp: in_asmap_def asmap_append_def update_conv' split: option.splits)

lemma distinct_asmap_append:
  "distinct (map fst m) \<Longrightarrow> distinct (map fst (asmap_append m k n))"
  by (simp add: asmap_append_def distinct_update split: option.splits)

lemma asmap_step_cases:
  assumes "asmap_step g n m = Inr t"
  shows "(t = m \<and> get_bgp_asnum g n = Inr None)
       \<or> (\<exists>k. get_bgp_asnum g n = Inr (Some k) \<and> t = asmap_append m k n)"
proof -
  from assms obtain en where en: "is_bgp_enabled g n = Inr en"
    and body: "(if en then ebind (get_bgp_asnum g n)
                  (\<lambda>a. case a of None \<Rightarrow> Inr m | Some k \<Rightarrow> Inr (asmap_append m k n))
                else Inr m) = Inr t"
    unfolding asmap_step_def ebind_Inr_iff by blast
  from en obtain a where a: "get_bgp_asnum g n = Inr a" "en = (a \<noteq> None)"
    unfolding is_bgp_enabled_iff by blast
  show ?thesis
  proof (cases a)
    case None
    then show ?thesis using a body by simp
  next
    case (Some k)
    then show ?thesis using a body by (simp add: ebind_def)
  qed
qed

lemma asmap_fold_distinct:
  assumes "foldM (asmap_step g) rs m = Inr t" "distinct (map fst m)"
  shows "distinct (map fst t)"
  using assms(1,2)
proof (rule foldM_inv)
  fix x s u
  assume "distinct (map fst s)" "asmap_step g x s = Inr u"
  then show "distinct (map fst u)"
    using asmap_step_cases [of g x s u] distinct_asmap_append by auto
qed

lemma asmap_fold_sound:
  assumes "foldM (asmap_step g) rs m = Inr t"
    and "\<And>k n. in_asmap m k n \<Longrightarrow> get_bgp_asnum g n = Inr (Some k)"
    and "in_asmap t k n"
  shows "get_bgp_asnum g n = Inr (Some k)"
proof -
  have "\<forall>k n. in_asmap t k n \<longrightarrow> get_bgp_asnum g n = Inr (Some k)"
    using assms(1)
  proof (rule foldM_inv)
    show "\<forall>k n. in_asmap m k n \<longrightarrow> get_bgp_asnum g n = Inr (Some k)"
      using assms(2) by blast
  next
    fix x s u
    assume "\<forall>k n. in_asmap s k n \<longrightarrow> get_bgp_asnum g n = Inr (Some k)"
      and "asmap_step g x s = Inr u"
    then show "\<forall>k n. in_asmap u k n \<longrightarrow> get_bgp_asnum g n = Inr (Some k)"
      using asmap_step_cases [of g x s u] by (auto simp: in_asmap_append)
  qed
  then show ?thesis using assms(3) by blast
qed

lemma asmap_fold_complete:
  assumes "foldM (asmap_step g) rs m = Inr t"
  shows "(\<forall>k n. in_asmap m k n \<longrightarrow> in_asmap t k n)
       \<and> (\<forall>n \<in> set rs. \<forall>k. get_bgp_asnum g n = Inr (Some k) \<longrightarrow> in_asmap t k n)"
  using assms
proof (induction rs arbitrary: m)
  case Nil
  then show ?case by simp
next
  case (Cons x xs)
  from Cons.prems obtain u where u: "asmap_step g x m = Inr u" "foldM (asmap_step g) xs u = Inr t"
    by (auto simp: ebind_Inr_iff)
  note ih = Cons.IH [OF u(2)]
  have keep: "\<forall>k n. in_asmap m k n \<longrightarrow> in_asmap u k n"
    using asmap_step_cases [OF u(1)] by (auto simp: in_asmap_append)
  have new: "\<forall>k. get_bgp_asnum g x = Inr (Some k) \<longrightarrow> in_asmap u k x"
    using asmap_step_cases [OF u(1)] by (auto simp: in_asmap_append)
  show ?case using ih keep new by auto
qed


subsection \<open>What a zone contains\<close>

definition as_fits :: "NetworkGraph \<Rightarrow> asn \<Rightarrow> node \<Rightarrow> bool" where
  "as_fits g k n = (\<forall>k'. get_bgp_asnum g n = Inr (Some k') \<longrightarrow> k' = k)"

lemma ug_add_node_nodes: "set (ug_nodes (ug_add_node z n)) = insert n (set (ug_nodes z))"
  by (auto simp: ug_add_node_def)

lemma ug_add_edge_nodes: "set (ug_nodes (ug_add_edge z u v)) = insert u (insert v (set (ug_nodes z)))"
  by (auto simp: ug_add_edge_def Let_def ug_add_node_nodes)

lemma foldl_add_node_nodes: "set (ug_nodes (foldl ug_add_node z ns)) = set (ug_nodes z) \<union> set ns"
  by (induction ns arbitrary: z) (auto simp: ug_add_node_nodes)

lemma zone_neighbor_step_cases:
  assumes "zone_neighbor_step g k n nb z = Inr z'"
  shows "z' = z \<or> (z' = ug_add_edge z n nb \<and> as_fits g k nb)"
proof -
  from assms obtain r where r: "is_router g nb = Inr r"
    and body: "(if \<not> r then Inr z
       else ebind (is_bgp_enabled g nb) (\<lambda>en.
         if en then
           ebind (get_bgp_asnum g nb) (\<lambda>a.
             if a = Some k then Inr (ug_add_edge z n nb) else Inr z)
         else Inr (ug_add_edge z n nb))) = Inr z'"
    unfolding zone_neighbor_step_def ebind_Inr_iff by blast
  show ?thesis
  proof (cases r)
    case False
    then show ?thesis using body by simp
  next
    case True
    with body have "ebind (is_bgp_enabled g nb) (\<lambda>en.
         if en then
           ebind (get_bgp_asnum g nb) (\<lambda>a.
             if a = Some k then Inr (ug_add_edge z n nb) else Inr z)
         else Inr (ug_add_edge z n nb)) = Inr z'" by simp
    then obtain en where en: "is_bgp_enabled g nb = Inr en"
      and body2: "(if en then
           ebind (get_bgp_asnum g nb) (\<lambda>a.
             if a = Some k then Inr (ug_add_edge z n nb) else Inr z)
         else Inr (ug_add_edge z n nb)) = Inr z'"
      unfolding ebind_Inr_iff by blast
    from en obtain a where a: "get_bgp_asnum g nb = Inr a" "en = (a \<noteq> None)"
      unfolding is_bgp_enabled_iff by blast
    show ?thesis
    proof (cases a)
      case None
      then show ?thesis using a body2 by (simp add: as_fits_def)
    next
      case (Some k')
      then show ?thesis using a body2 by (auto simp: ebind_def as_fits_def split: if_splits)
    qed
  qed
qed

definition zone_inv :: "NetworkGraph \<Rightarrow> asn \<Rightarrow> node ugraph \<Rightarrow> node ugraph \<Rightarrow> bool" where
  "zone_inv g k z z' =
     (set (ug_nodes z) \<subseteq> set (ug_nodes z') \<and> (\<forall>m \<in> set (ug_nodes z'). as_fits g k m))"

lemma zone_node_step_inv:
  assumes "zone_node_step g k n z = Inr z'" "as_fits g k n" "\<forall>m \<in> set (ug_nodes z). as_fits g k m"
  shows "zone_inv g k z z'"
proof -
  have "foldM (zone_neighbor_step g k n) (graph_neighbors g n) z = Inr z'"
    using assms(1) by (simp add: zone_node_step_def)
  then show ?thesis
  proof (rule foldM_inv [where P = "zone_inv g k z"])
    show "zone_inv g k z z" using assms(3) by (simp add: zone_inv_def)
  next
    fix x s t
    assume s: "zone_inv g k z s" and t: "zone_neighbor_step g k n x s = Inr t"
    from zone_neighbor_step_cases [OF t] show "zone_inv g k z t"
      using s assms(2) by (auto simp: zone_inv_def ug_add_edge_nodes)
  qed
qed

lemma zone_pass_inv:
  assumes "zone_pass g k ns z = Inr z'" "\<forall>n \<in> set ns. as_fits g k n"
    "\<forall>m \<in> set (ug_nodes z). as_fits g k m"
  shows "zone_inv g k z z'"
proof -
  have "foldM (zone_node_step g k) ns z = Inr z'"
    using assms(1) by (simp add: zone_pass_def)
  then show ?thesis
  proof (rule foldM_inv [where P = "zone_inv g k z"])
    show "zone_inv g k z z" using assms(3) by (simp add: zone_inv_def)
  next
    fix x s t
    assume x: "x \<in> set ns" and s: "zone_inv g k z s" and t: "zone_node_step g k x s = Inr t"
    have "zone_inv g k s t"
      using t x assms(2) s by (intro zone_node_step_inv) (auto simp: zone_inv_def)
    then show "zone_inv g k z t" using s by (auto simp: zone_inv_def)
  qed
qed

lemma zone_grow_inv:
  assumes "zone_grow g k ns z prev = Inr zr" "\<forall>n \<in> set ns. as_fits g k n"
    "\<forall>m \<in> set (ug_nodes z). as_fits g k m"
  shows "zone_inv g k z zr"
  using assms
proof (induction g k ns z prev rule: zone_grow.induct)
  case (1 g k ibgp_nodes zg prev_size)
  from zone_grow_Inr_pass [OF "1.prems"(1)] obtain zg'
    where pass: "zone_pass g k ibgp_nodes zg = Inr zg'" by blast
  have inv: "zone_inv g k zg zg'"
    using pass "1.prems"(2,3) by (rule zone_pass_inv)
  show ?case
  proof (cases "ug_size zg' \<noteq> prev_size")
    case True
    then have rec: "zone_grow g k (ug_nodes zg') zg' (ug_size zg') = Inr zr"
      using "1.prems"(1) by (simp add: zone_grow_unfold [OF pass])
    have fits: "\<forall>m \<in> set (ug_nodes zg'). as_fits g k m" using inv by (simp add: zone_inv_def)
    have "zone_inv g k zg' zr"
      using "1.IH" [OF pass refl True rec fits fits] .
    then show ?thesis using inv by (auto simp: zone_inv_def)
  next
    case False
    then have "zr = zg'" using "1.prems"(1) by (simp add: zone_grow_unfold [OF pass])
    then show ?thesis using inv by simp
  qed
qed

lemma zone_for_inv:
  assumes "zone_for g k ns = Inr zr" "\<forall>n \<in> set ns. as_fits g k n"
  shows "set ns \<subseteq> set (ug_nodes zr) \<and> (\<forall>m \<in> set (ug_nodes zr). as_fits g k m)"
proof -
  let ?z = "foldl ug_add_node ug_empty ns"
  have n0: "set (ug_nodes ?z) = set ns" by (simp add: foldl_add_node_nodes ug_empty_def)
  have "zone_grow g k ns ?z (ug_size ?z) = Inr zr"
    using assms(1) by (simp add: zone_for_def Let_def)
  then have "zone_inv g k ?z zr"
    using assms(2) by (rule zone_grow_inv) (simp add: n0 assms(2))
  then show ?thesis using n0 by (simp add: zone_inv_def)
qed


subsection \<open>The zone dictionary\<close>

lemma zone_step_cases:
  assumes "zone_step g (k, ns) zones = Inr t"
  shows "\<exists>zg. zone_for g k ns = Inr zg \<and> t = AList.update k zg zones"
  using assms unfolding zone_step_def prod.case ebind_Inr_iff by auto

lemma zones_fold_sound:
  assumes "foldM (zone_step g) asmap acc = Inr zones"
    and "map_of zones k = Some zg"
  shows "map_of acc k = Some zg \<or> (\<exists>ns. (k, ns) \<in> set asmap \<and> zone_for g k ns = Inr zg)"
  using assms
proof (induction asmap arbitrary: acc)
  case Nil
  then show ?case by simp
next
  case (Cons x xs)
  obtain k0 ns0 where x: "x = (k0, ns0)" by (cases x)
  from Cons.prems(1) obtain t where t: "zone_step g (k0, ns0) acc = Inr t"
    and rest: "foldM (zone_step g) xs t = Inr zones"
    unfolding x foldM.simps ebind_Inr_iff by blast
  from zone_step_cases [OF t] obtain z0 where z0: "zone_for g k0 ns0 = Inr z0"
    "t = AList.update k0 z0 acc" by blast
  from Cons.IH [OF rest Cons.prems(2)]
  show ?case
  proof
    assume "map_of t k = Some zg"
    then show ?thesis using z0 x by (auto simp: update_conv' split: if_splits)
  next
    assume "\<exists>ns. (k, ns) \<in> set xs \<and> zone_for g k ns = Inr zg"
    then show ?thesis by auto
  qed
qed

lemma zones_fold_dom:
  assumes "foldM (zone_step g) asmap acc = Inr zones"
  shows "dom (map_of zones) = dom (map_of acc) \<union> fst ` set asmap"
  using assms
proof (induction asmap arbitrary: acc)
  case Nil
  then show ?case by simp
next
  case (Cons x xs)
  obtain k0 ns0 where x: "x = (k0, ns0)" by (cases x)
  from Cons.prems(1) obtain t where t: "zone_step g (k0, ns0) acc = Inr t"
    and rest: "foldM (zone_step g) xs t = Inr zones"
    unfolding x foldM.simps ebind_Inr_iff by blast
  from zone_step_cases [OF t] obtain z0 where z0: "t = AList.update k0 z0 acc" by blast
  have "dom (map_of t) = insert k0 (dom (map_of acc))"
    unfolding z0 by (simp add: update_conv')
  then show ?case using Cons.IH [OF rest] x by auto
qed

lemma zones_fold_distinct:
  assumes "foldM (zone_step g) asmap acc = Inr zones" "distinct (map fst acc)"
  shows "distinct (map fst zones)"
  using assms(1,2)
proof (rule foldM_inv)
  fix x s t
  assume d: "distinct (map fst s)" and t: "zone_step g x s = Inr t"
  obtain k0 ns0 where x: "x = (k0, ns0)" by (cases x)
  from zone_step_cases [OF t [unfolded x]] show "distinct (map fst t)"
    using d by (auto simp: distinct_update)
qed

subsection \<open>Convergence on typed topologies\<close>

lemma is_bgp_enabled_of_router:
  assumes "is_router g n = Inr True"
  shows "\<exists>b. is_bgp_enabled g n = Inr b"
  using get_bgp_asnum_of_router [OF assms] by (auto simp: is_bgp_enabled_def ebind_def)

lemma routers_iter_total:
  assumes "all_typed g"
  shows "\<exists>rs. routers_iter g = Inr rs"
  unfolding routers_iter_def
proof (rule foldM_total)
  fix x s
  obtain b where "is_router g x = Inr b" using is_router_typed [OF assms] by blast
  then show "\<exists>t. ebind (is_router g x) (\<lambda>b. Inr (if b then s @ [x] else s)) = Inr t"
    by (simp add: ebind_def)
qed

lemma asmap_step_total:
  assumes "is_router g n = Inr True"
  shows "\<exists>t. asmap_step g n m = Inr t"
proof -
  obtain a where a: "get_bgp_asnum g n = Inr a"
    using get_bgp_asnum_of_router [OF assms] by blast
  then show ?thesis
    by (cases a) (simp_all add: asmap_step_def is_bgp_enabled_def ebind_def)
qed

lemma build_asmap_total:
  assumes "all_typed g"
  shows "\<exists>m. build_asmap g = Inr m"
proof -
  obtain rs where rs: "routers_iter g = Inr rs" using routers_iter_total [OF assms] by blast
  have "\<exists>m. foldM (asmap_step g) rs [] = Inr m"
  proof (rule foldM_total)
    fix x s
    assume "x \<in> set rs"
    then have "is_router g x = Inr True" using routers_iter_set [OF rs] by simp
    then show "\<exists>t. asmap_step g x s = Inr t" by (rule asmap_step_total)
  qed
  then show ?thesis using rs by (simp add: build_asmap_def ebind_def)
qed

lemma zone_neighbor_step_total:
  assumes "all_typed g"
  shows "\<exists>t. zone_neighbor_step g k n nb z = Inr t"
proof -
  obtain r where r: "is_router g nb = Inr r" using is_router_typed [OF assms] by blast
  show ?thesis
  proof (cases r)
    case False
    then show ?thesis using r by (simp add: zone_neighbor_step_def ebind_def)
  next
    case True
    then obtain a where a: "get_bgp_asnum g nb = Inr a"
      using get_bgp_asnum_of_router [of g nb] r by auto
    then show ?thesis using r True
      by (cases a) (simp_all add: zone_neighbor_step_def is_bgp_enabled_def ebind_def)
  qed
qed

lemma zone_pass_total:
  assumes "all_typed g"
  shows "\<exists>t. zone_pass g k ns z = Inr t"
  unfolding zone_pass_def
proof (rule foldM_total)
  fix x s
  show "\<exists>t. zone_node_step g k x s = Inr t"
    unfolding zone_node_step_def
    by (rule foldM_total) (rule zone_neighbor_step_total [OF assms])
qed

lemma zone_grow_total:
  assumes "all_typed g"
  shows "\<exists>zr. zone_grow g k ns z prev = Inr zr"
  using assms
proof (induction g k ns z prev rule: zone_grow.induct)
  case (1 g k ibgp_nodes zg prev_size)
  obtain zg' where pass: "zone_pass g k ibgp_nodes zg = Inr zg'"
    using zone_pass_total [OF "1.prems"] by blast
  show ?case
  proof (cases "ug_size zg' \<noteq> prev_size")
    case True
    from "1.IH" [OF pass refl True "1.prems"] obtain zr
      where "zone_grow g k (ug_nodes zg') zg' (ug_size zg') = Inr zr" by blast
    then show ?thesis using True by (simp add: zone_grow_unfold [OF pass])
  next
    case False
    then show ?thesis by (simp add: zone_grow_unfold [OF pass])
  qed
qed

lemma extract_ibgp_zones_total:
  assumes "all_typed g"
  shows "\<exists>zones. extract_ibgp_zones g = Inr zones"
proof -
  obtain m where m: "build_asmap g = Inr m" using build_asmap_total [OF assms] by blast
  have "\<exists>zones. foldM (zone_step g) m [] = Inr zones"
  proof (rule foldM_total)
    fix x :: "asn \<times> node list" and s :: "(asn \<times> node ugraph) list"
    obtain k ns where x: "x = (k, ns)" by (cases x)
    obtain zr where "zone_for g k ns = Inr zr"
      using zone_grow_total [OF assms] unfolding zone_for_def Let_def by blast
    then show "\<exists>t. zone_step g x s = Inr t" by (simp add: x zone_step_def ebind_def)
  qed
  then show ?thesis using m by (simp add: extract_ibgp_zones_def ebind_def)
qed


definition topo_transit :: NetworkGraph where
  "topo_transit = \<lparr>
     node_tab =
       [(''R1'', \<lparr>vertex_type = Some ROUTER,
                  bgp = Some \<lparr>asnum = Some 10, neighbors = [], advertise = []\<rparr>\<rparr>),
        (''T'', \<lparr>vertex_type = Some ROUTER, bgp = None\<rparr>),
        (''R2'', \<lparr>vertex_type = Some ROUTER,
                  bgp = Some \<lparr>asnum = Some 20, neighbors = [], advertise = []\<rparr>\<rparr>)],
     edge_tab =
       [((''R1'', ''T''), ROUTER_EDGE), ((''T'', ''R1''), ROUTER_EDGE),
        ((''T'', ''R2''), ROUTER_EDGE), ((''R2'', ''T''), ROUTER_EDGE)]\<rparr>"

definition zones_transit :: "(asn \<times> node ugraph) list" where
  "zones_transit =
     [(10, \<lparr>ug_nodes = [''R1'', ''T''], ug_edges = [(''R1'', ''T'')]\<rparr>),
      (20, \<lparr>ug_nodes = [''R2'', ''T''], ug_edges = [(''R2'', ''T'')]\<rparr>)]"

lemma asnum_transit:
  "get_bgp_asnum topo_transit ''R1'' = Inr (Some 10)"
  "get_bgp_asnum topo_transit ''T'' = Inr None"
  "get_bgp_asnum topo_transit ''R2'' = Inr (Some 20)"
  by (simp_all add: topo_transit_def get_bgp_asnum_def get_bgp_attrs_def passert_def
      is_router_def is_peer_def is_local_router_def vertex_is_def por_def ebind_def
      dict_get_def default_bgp_def)

lemma is_router_transit:
  "is_router topo_transit ''R1'' = Inr True"
  "is_router topo_transit ''T'' = Inr True"
  "is_router topo_transit ''R2'' = Inr True"
  by (simp_all add: topo_transit_def 
      is_router_def is_peer_def is_local_router_def vertex_is_def por_def ebind_def)

lemma neighbors_transit:
  "graph_neighbors topo_transit ''R1'' = [''T'']"
  "graph_neighbors topo_transit ''T'' = [''R1'', ''R2'']"
  "graph_neighbors topo_transit ''R2'' = [''T'']"
  by (simp_all add: topo_transit_def graph_neighbors_def)

lemma extract_transit: "extract_ibgp_zones topo_transit = Inr zones_transit"
proof -
  have ns: "nodes topo_transit = [''R1'', ''T'', ''R2'']"
    by (simp add: nodes_def topo_transit_def)
  have rs: "routers_iter topo_transit = Inr [''R1'', ''T'', ''R2'']"
    by (simp add: routers_iter_def ns is_router_transit ebind_def)
  have m: "build_asmap topo_transit = Inr [(10, [''R1'']), (20, [''R2''])]"
    by (simp add: build_asmap_def rs ebind_def asmap_step_def is_bgp_enabled_def asnum_transit
        asmap_append_def)
  have step: "zone_neighbor_step topo_transit k n nb z =
      (if get_bgp_asnum topo_transit nb = Inr None \<or> get_bgp_asnum topo_transit nb = Inr (Some k)
       then Inr (ug_add_edge z n nb) else Inr z)"
    if "nb \<in> {''R1'', ''T'', ''R2''}" for k n nb z
    using that
    by (auto simp: zone_neighbor_step_def is_router_transit ebind_def is_bgp_enabled_def asnum_transit)
  have z10: "zone_for topo_transit 10 [''R1''] = Inr \<lparr>ug_nodes = [''R1'', ''T''], ug_edges = [(''R1'', ''T'')]\<rparr>"
    by (simp add: zone_for_def zone_grow.simps zone_pass_def zone_node_step_def neighbors_transit
        step asnum_transit ebind_def ug_add_edge_def ug_add_node_def ug_has_edge_def ug_size_def
        ug_empty_def Let_def)
  have z20: "zone_for topo_transit 20 [''R2''] = Inr \<lparr>ug_nodes = [''R2'', ''T''], ug_edges = [(''R2'', ''T'')]\<rparr>"
    by (simp add: zone_for_def zone_grow.simps zone_pass_def zone_node_step_def neighbors_transit
        step asnum_transit ebind_def ug_add_edge_def ug_add_node_def ug_has_edge_def ug_size_def
        ug_empty_def Let_def)
  show ?thesis
    by (simp add: extract_ibgp_zones_def m ebind_def zone_step_def z10 z20 zones_transit_def)
qed


lemma zones_of_asmap:
  assumes "build_asmap g = Inr m" "foldM (zone_step g) m [] = Inr zones"
  shows "distinct (map fst zones)"
    and "get_bgp_asnum g r = Inr (Some k) \<Longrightarrow> \<exists>zg. map_of zones k = Some zg \<and> r \<in> set (ug_nodes zg)"
    and "(k', zg') \<in> set zones \<Longrightarrow> r \<in> set (ug_nodes zg') \<Longrightarrow> as_fits g k' r"
proof -
  from assms(1) obtain rs where rs: "routers_iter g = Inr rs"
    and fold: "foldM (asmap_step g) rs [] = Inr m"
    unfolding build_asmap_def ebind_Inr_iff by blast
  have sound: "get_bgp_asnum g n = Inr (Some j)" if "in_asmap m j n" for j n
    using fold _ that by (rule asmap_fold_sound) (simp add: in_asmap_def)
  have dm: "distinct (map fst m)" using fold by (rule asmap_fold_distinct) simp
  show dz: "distinct (map fst zones)" using assms(2) by (rule zones_fold_distinct) simp
  have zone_of: "\<exists>ns. map_of m j = Some ns \<and> zone_for g j ns = Inr z" if "map_of zones j = Some z" for j z
    using zones_fold_sound [OF assms(2) that] dm by auto
  have fits: "\<forall>n \<in> set ns. as_fits g j n" if "map_of m j = Some ns" for j ns
  proof
    fix n assume "n \<in> set ns"
    then have "in_asmap m j n" using that by (auto simp: in_asmap_def)
    then have "get_bgp_asnum g n = Inr (Some j)" by (rule sound)
    then show "as_fits g j n" by (simp add: as_fits_def)
  qed
  {
    assume a: "get_bgp_asnum g r = Inr (Some k)"
    then have "is_router g r = Inr True" by (rule get_bgp_asnum_is_router)
    moreover from this have "r \<in> set (nodes g)"
      using is_router_True_has_node [of g r] by (auto simp: nodes_def dest: map_of_SomeD [THEN in_set_zipE] simp: map_of_eq_None_iff)
    ultimately have "r \<in> set rs" using routers_iter_set [OF rs] by simp
    then have "in_asmap m k r" using asmap_fold_complete [OF fold] a by blast
    then obtain ns where ns: "map_of m k = Some ns" "r \<in> set ns" by (auto simp: in_asmap_def)
    then have "k \<in> dom (map_of zones)"
      using zones_fold_dom [OF assms(2)] by (auto dest: map_of_SomeD intro: rev_image_eqI)
    then obtain zg where zg: "map_of zones k = Some zg" by auto
    from zone_of [OF zg] ns(1) have "zone_for g k ns = Inr zg" by auto
    from zone_for_inv [OF this fits [OF ns(1)]] have "r \<in> set (ug_nodes zg)" using ns(2) by auto
    then show "\<exists>zg. map_of zones k = Some zg \<and> r \<in> set (ug_nodes zg)" using zg by blast
  }
  {
    assume "(k', zg') \<in> set zones" and r: "r \<in> set (ug_nodes zg')"
    then have "map_of zones k' = Some zg'" using dz by simp
    from zone_of [OF this] obtain ns where ns: "map_of m k' = Some ns" "zone_for g k' ns = Inr zg'"
      by blast
    from zone_for_inv [OF ns(2) fits [OF ns(1)]] show "as_fits g k' r" using r by blast
  }
qed

text \<open>
  C1. \<open>extract_ibgp_zones\<close> returns on every topology whose nodes all carry a vertex
  type, and whenever it returns, the zone dictionary has one zone per AS number and every
  router with an AS number \<open>k\<close> is a node of the zone keyed \<open>k\<close> and of no zone keyed
  by another AS number.
\<close>

theorem ibgp_zones_partition:
  "(all_typed g \<longrightarrow> (\<exists>zones. extract_ibgp_zones g = Inr zones))
   \<and> (extract_ibgp_zones g = Inr zones \<and> get_bgp_asnum g r = Inr (Some k) \<longrightarrow>
        distinct (map fst zones)
        \<and> (\<exists>zg. map_of zones k = Some zg \<and> r \<in> set (ug_nodes zg))
        \<and> (\<forall>k' zg'. (k', zg') \<in> set zones \<and> r \<in> set (ug_nodes zg') \<longrightarrow> k' = k))"
proof (intro conjI impI)
  assume "all_typed g"
  then show "\<exists>zones. extract_ibgp_zones g = Inr zones" by (rule extract_ibgp_zones_total)
next
  assume a: "extract_ibgp_zones g = Inr zones \<and> get_bgp_asnum g r = Inr (Some k)"
  then obtain m where m: "build_asmap g = Inr m" "foldM (zone_step g) m [] = Inr zones"
    unfolding extract_ibgp_zones_def ebind_Inr_iff by blast
  show "distinct (map fst zones)" using m by (rule zones_of_asmap(1))
  show "\<exists>zg. map_of zones k = Some zg \<and> r \<in> set (ug_nodes zg)"
    using m a by (intro zones_of_asmap(2)) auto
  show "\<forall>k' zg'. (k', zg') \<in> set zones \<and> r \<in> set (ug_nodes zg') \<longrightarrow> k' = k"
  proof (intro allI impI)
    fix k' zg'
    assume "(k', zg') \<in> set zones \<and> r \<in> set (ug_nodes zg')"
    then have "as_fits g k' r" using zones_of_asmap(3) [OF m] by blast
    then show "k' = k" using a by (auto simp: as_fits_def)
  qed
qed

theorem ibgp_zones_partition_witness:
  "all_typed topo_transit
   \<and> extract_ibgp_zones topo_transit = Inr zones_transit
   \<and> get_bgp_asnum topo_transit ''R1'' = Inr (Some 10)
   \<and> distinct (map fst zones_transit)
   \<and> (\<exists>zg. map_of zones_transit 10 = Some zg \<and> ''R1'' \<in> set (ug_nodes zg))
   \<and> (\<exists>zg. (20, zg) \<in> set zones_transit \<and> ''T'' \<in> set (ug_nodes zg) \<and> ''R1'' \<notin> set (ug_nodes zg))"
proof -
  have t: "all_typed topo_transit" by (simp add: all_typed_def topo_transit_def)
  have e: "extract_ibgp_zones topo_transit = Inr zones_transit" by (rule extract_transit)
  have a: "get_bgp_asnum topo_transit ''R1'' = Inr (Some 10)" by (rule asnum_transit)
  have z: "(20, \<lparr>ug_nodes = [''R2'', ''T''], ug_edges = [(''R2'', ''T'')]\<rparr>) \<in> set zones_transit"
    by (simp add: zones_transit_def)
  from ibgp_zones_partition [of topo_transit zones_transit "''R1''" 10] e a
  have "distinct (map fst zones_transit)
        \<and> (\<exists>zg. map_of zones_transit 10 = Some zg \<and> ''R1'' \<in> set (ug_nodes zg))
        \<and> (\<forall>k' zg'. (k', zg') \<in> set zones_transit \<and> ''R1'' \<in> set (ug_nodes zg') \<longrightarrow> k' = 10)"
    by blast
  moreover from this z have "''R1'' \<notin> set (ug_nodes \<lparr>ug_nodes = [''R2'', ''T''], ug_edges = [(''R2'', ''T'')]\<rparr>)"
    by fastforce
  ultimately show ?thesis using t e a z by auto
qed

section \<open>Node-type predicates on unknown names\<close>

text \<open>
  C10. The predicates \<open>is_peer\<close>, \<open>is_local_router\<close>, \<open>is_network\<close> and \<open>is_router\<close>
  return \<open>False\<close>, and do not raise, for every name that is not a node of the graph.
\<close>

theorem type_predicates_total_on_unknown:
  assumes "\<not> has_node g n"
  shows "is_peer g n = Inr False \<and> is_local_router g n = Inr False
       \<and> is_network g n = Inr False \<and> is_router g n = Inr False"
  using assms
  by (simp add: has_node_def is_peer_def is_local_router_def is_network_def is_router_def
      vertex_is_def por_def ebind_def)

theorem type_predicates_total_on_unknown_witness:
  "\<not> has_node empty_graph ''R9''
   \<and> is_peer empty_graph ''R9'' = Inr False \<and> is_local_router empty_graph ''R9'' = Inr False
   \<and> is_network empty_graph ''R9'' = Inr False \<and> is_router empty_graph ''R9'' = Inr False"
proof -
  have h: "\<not> has_node empty_graph ''R9''"
    by (simp add: has_node_def empty_graph_def)
  show ?thesis
    using h type_predicates_total_on_unknown [OF h] by simp
qed

section \<open>Expanding an AS path into router paths\<close>

text \<open>\<open>xs[i]\<close> for a non-negative index.\<close>

definition list_get :: "'a list \<Rightarrow> nat \<Rightarrow> error + 'a" where
  "list_get xs i = (if i < length xs then Inr (xs ! i) else Inl IndexError)"

text \<open>
  The body of the loop of \<open>get_bgp_path\<close>. A BGP-enabled router has an AS number, so
  the \<open>None\<close> branch is never taken.
\<close>

definition bgp_path_step :: "NetworkGraph \<Rightarrow> node \<Rightarrow> asn list \<Rightarrow> error + asn list" where
  "bgp_path_step g n bgp_path =
     ebind (is_bgp_enabled g n) (\<lambda>en.
       if \<not> en then Inr bgp_path
       else ebind (get_bgp_asnum g n) (\<lambda>a.
         case a of
           None \<Rightarrow> Inr bgp_path
         | Some k \<Rightarrow>
             if bgp_path = [] \<or> last bgp_path \<noteq> k then Inr (bgp_path @ [k])
             else Inr bgp_path))"

definition get_bgp_path :: "NetworkGraph \<Rightarrow> node list \<Rightarrow> error + asn list" where
  "get_bgp_path g path = ebind (foldM (bgp_path_step g) path []) (\<lambda>bgp_path. Inr (rev bgp_path))"

text \<open>The innermost loop of \<open>expand_as_path\<close>, over the neighbours \<open>nn\<close> of the new hop.\<close>

definition expand_nn_step ::
  "NetworkGraph \<Rightarrow> asn option \<Rightarrow> asn option \<Rightarrow> node list \<Rightarrow> node \<Rightarrow> node list list \<Rightarrow> error + node list list" where
  "expand_nn_step g curras neighbor_as new_path nn new_paths =
     ebind (get_bgp_asnum g nn) (\<lambda>nn_as.
       if curras \<noteq> neighbor_as \<and> neighbor_as = nn_as then Inr (new_paths @ [new_path @ [nn]])
       else Inr new_paths)"

text \<open>The loop over the BGP neighbours of the last router of a frontier path.\<close>

definition expand_neighbor_step ::
  "NetworkGraph \<Rightarrow> node list list \<Rightarrow> nat \<Rightarrow> bool \<Rightarrow> node list \<Rightarrow> asn option \<Rightarrow> node \<Rightarrow> node list list
     \<Rightarrow> error + node list list" where
  "expand_neighbor_step g tt index is_last path curras neighbor new_paths =
     ebind (get_bgp_asnum g neighbor) (\<lambda>neighbor_as.
       if \<not> is_last \<and> curras \<noteq> neighbor_as then
         if neighbor \<notin> set path then
           ebind (list_get tt (index + 1)) (\<lambda>zone.
             if neighbor \<in> set zone then
               (let new_path = path @ [neighbor]
                in ebind (get_bgp_neighbors g neighbor)
                     (\<lambda>nns. foldM (expand_nn_step g curras neighbor_as new_path) nns
                              (new_paths @ [new_path])))
             else Inr new_paths)
         else Inr new_paths
       else Inr new_paths)"

text \<open>
  The body of the loop over the snapshot \<open>new_paths[:]\<close>. \<open>list.remove\<close> raises
  \<open>ValueError\<close> on a missing element and \<open>path[-1]\<close> raises \<open>IndexError\<close> on an empty
  path.
\<close>

definition expand_path_step ::
  "NetworkGraph \<Rightarrow> node list list \<Rightarrow> nat \<Rightarrow> bool \<Rightarrow> node list \<Rightarrow> node list list \<Rightarrow> error + node list list" where
  "expand_path_step g tt index is_last path new_paths =
     ebind (if \<not> is_last
            then (if path \<in> set new_paths then Inr (remove1 path new_paths) else Inl ValueError)
            else Inr new_paths) (\<lambda>new_paths1.
     if path = [] then Inl IndexError
     else
       (let last_node = last path
        in ebind (get_bgp_neighbors g last_node) (\<lambda>bgp_neighbors.
           ebind (get_bgp_asnum g last_node) (\<lambda>curras.
           foldM (expand_neighbor_step g tt index is_last path curras) bgp_neighbors new_paths1))))"

definition expand_index_step ::
  "NetworkGraph \<Rightarrow> node list list \<Rightarrow> nat \<Rightarrow> node list list \<Rightarrow> error + node list list" where
  "expand_index_step g tt index new_paths =
     (let is_last = (index + 1 = length tt)
      in foldM (expand_path_step g tt index is_last) new_paths new_paths)"

text \<open>
  \<open>expand_as_path\<close>: the origin set is given as the list of its elements and the
  returned set as the list of its distinct elements.
\<close>

definition expand_as_path ::
  "NetworkGraph \<Rightarrow> (asn \<times> node ugraph) list \<Rightarrow> asn list \<Rightarrow> node list \<Rightarrow> error + node list list" where
  "expand_as_path g ibgp_zones path origins =
     ebind (foldM (\<lambda>asnum tt. ebind (dict_get ibgp_zones asnum) (\<lambda>z. Inr (tt @ [ug_nodes z]))) path [])
       (\<lambda>tt.
     ebind (foldM (expand_index_step g tt) [0..<length tt] (map (\<lambda>orig. [orig]) origins))
       (\<lambda>new_paths. Inr (remdups new_paths)))"

definition topo_triangle :: NetworkGraph where
  "topo_triangle = \<lparr>
     node_tab =
       [(''A'', \<lparr>vertex_type = Some ROUTER,
                 bgp = Some \<lparr>asnum = Some 100, neighbors = [''B'', ''C''], advertise = []\<rparr>\<rparr>),
        (''B'', \<lparr>vertex_type = Some ROUTER,
                 bgp = Some \<lparr>asnum = Some 200, neighbors = [''A'', ''C''], advertise = []\<rparr>\<rparr>),
        (''C'', \<lparr>vertex_type = Some ROUTER,
                 bgp = Some \<lparr>asnum = Some 100, neighbors = [''B'', ''A''], advertise = []\<rparr>\<rparr>)],
     edge_tab =
       [((''A'', ''B''), ROUTER_EDGE), ((''B'', ''A''), ROUTER_EDGE),
        ((''B'', ''C''), ROUTER_EDGE), ((''C'', ''B''), ROUTER_EDGE),
        ((''C'', ''A''), ROUTER_EDGE), ((''A'', ''C''), ROUTER_EDGE)]\<rparr>"


text \<open>
  C2. On a triangle of routers \<open>A\<close> (AS 100), \<open>B\<close> (AS 200) and \<open>C\<close> (AS 100) with a BGP
  session on every side, and the zones that \<open>extract_ibgp_zones\<close> computes for it,
  expanding the AS sequence \<open>(100, 200, 100)\<close> from the origin \<open>A\<close> returns the path
  \<open>(A, B, C, A)\<close>, in which the router \<open>A\<close> occurs twice: the router appended after an
  eBGP hop is not compared with the routers already in the path.
\<close>

theorem expand_as_path_revisits_router:
  "ebind (extract_ibgp_zones topo_triangle)
     (\<lambda>zones. expand_as_path topo_triangle zones [100, 200, 100] [''A''])
   = Inr [[''A'', ''B'', ''C''], [''A'', ''B'', ''C'', ''A'']]"
  by code_simp

text \<open>
  C7. \<open>add_router_edge\<close> tests its source twice and never its destination: from a
  router \<open>R1\<close> to a network \<open>N1\<close>, which is not a local router, it inserts the edge and
  does not raise.
\<close>

theorem add_router_edge_unchecked_destination:
  "ebind (add_router empty_graph ''R1'') (\<lambda>g1.
   ebind (add_network g1 ''N1'') (\<lambda>g.
   ebind (is_local_router g ''N1'') (\<lambda>dst_is_router.
   ebind (add_router_edge g ''R1'' ''N1'') (\<lambda>g'.
   Inr (dst_is_router, has_edge g' ''R1'' ''N1'')))))
   = Inr (False, True)"
  by code_simp

section \<open>Propagation graphs\<close>

text \<open>
  The attributes that the external primitive \<open>compute_propagation\<close> attaches to every
  node of a per-prefix graph. A set of paths is the list of its elements; \<open>order\<close> is a
  list of such sets.
\<close>

record 'n prop_attrs =
  order :: "'n list list list"
  paths :: "'n list list"
  block :: "'n list list"

text \<open>A per-prefix propagation graph: the node dictionary and the edges.\<close>

record 'n prop_graph =
  pg_nodes :: "('n \<times> 'n prop_attrs) list"
  pg_edges :: "('n \<times> 'n) list"

text \<open>
  A merged graph is a \<open>networkx.Graph\<close> whose nodes carry the dictionary \<open>nets\<close> from
  prefixes to the entries of type \<open>'i\<close>. A node that \<open>add_edge\<close> created has no \<open>nets\<close>
  key.
\<close>

record ('n, 'i) merged_graph =
  mg_nodes :: "('n \<times> (prefix \<times> 'i) list option) list"
  mg_edges :: "('n \<times> 'n) list"

definition mg_empty :: "('n, 'i) merged_graph" where
  "mg_empty = \<lparr>mg_nodes = [], mg_edges = []\<rparr>"

definition mg_has_node :: "('n, 'i) merged_graph \<Rightarrow> 'n \<Rightarrow> bool" where
  "mg_has_node m n = (map_of (mg_nodes m) n \<noteq> None)"

definition mg_has_edge :: "('n, 'i) merged_graph \<Rightarrow> 'n \<Rightarrow> 'n \<Rightarrow> bool" where
  "mg_has_edge m u v = ((u, v) \<in> set (mg_edges m) \<or> (v, u) \<in> set (mg_edges m))"

text \<open>\<open>Graph.add_edge(u, v)\<close> without attributes.\<close>

definition mg_touch :: "('n, 'i) merged_graph \<Rightarrow> 'n \<Rightarrow> ('n, 'i) merged_graph" where
  "mg_touch m n = (if mg_has_node m n then m else m\<lparr>mg_nodes := mg_nodes m @ [(n, None)]\<rparr>)"

definition mg_add_edge :: "('n, 'i) merged_graph \<Rightarrow> 'n \<times> 'n \<Rightarrow> ('n, 'i) merged_graph" where
  "mg_add_edge m = (\<lambda>(u, v).
     (let m1 = mg_touch (mg_touch m u) v
      in if mg_has_edge m1 u v then m1 else m1\<lparr>mg_edges := mg_edges m1 @ [(u, v)]\<rparr>))"

text \<open>\<open>self.ibgp_propagation._node[node]['nets']\<close>.\<close>

definition mg_nets :: "('n, 'i) merged_graph \<Rightarrow> 'n \<Rightarrow> error + (prefix \<times> 'i) list" where
  "mg_nets m n =
     (case map_of (mg_nodes m) n of
        None \<Rightarrow> Inl KeyError
      | Some None \<Rightarrow> Inl KeyError
      | Some (Some nets) \<Rightarrow> Inr nets)"

section \<open>merge\_dags\<close>

text \<open>
  The entry \<open>info\<close> that \<open>merge_dags\<close> stores, and the keys that
  \<open>partial_eval_propagated_info\<close> adds to it later: the facts are references into the
  store of \<open>PropagatedInfo\<close> objects.
\<close>

record 'n net_info =
  info_order :: "'n list list list"
  info_paths :: "'n list list"
  info_block :: "'n list list"
  order_info :: "nat list list option"
  block_info :: "nat list option"
  paths_info :: "nat list option"
  origins :: "(nat \<times> nat option) list option"

definition make_info :: "'n prop_attrs \<Rightarrow> 'n net_info" where
  "make_info a = \<lparr>info_order = order a, info_paths = paths a, info_block = block a,
                  order_info = None, block_info = None, paths_info = None, origins = None\<rparr>"

text \<open>The body of the loop over the nodes of one per-prefix graph.\<close>

definition merge_node ::
  "prefix \<Rightarrow> 'n \<times> 'n prop_attrs \<Rightarrow> ('n, 'n net_info) merged_graph \<Rightarrow> error + ('n, 'n net_info) merged_graph" where
  "merge_node net = (\<lambda>(node, attrs) m.
     (let m1 = (if \<not> mg_has_node m node then m\<lparr>mg_nodes := mg_nodes m @ [(node, Some [])]\<rparr> else m)
      in ebind (mg_nets m1 node) (\<lambda>nets.
           Inr (m1\<lparr>mg_nodes := AList.update node (Some (AList.update net (make_info attrs) nets))
                                  (mg_nodes m1)\<rparr>))))"

text \<open>The body of the loop over \<open>self.ebgp_graphs.items()\<close> and \<open>self.ibgp_graphs.items()\<close>.\<close>

definition merge_graph ::
  "prefix \<times> 'n prop_graph \<Rightarrow> ('n, 'n net_info) merged_graph \<Rightarrow> error + ('n, 'n net_info) merged_graph" where
  "merge_graph = (\<lambda>(net, graph) m.
     ebind (foldM (merge_node net) (pg_nodes graph) m) (\<lambda>m1.
       Inr (foldl mg_add_edge m1 (pg_edges graph))))"

definition merge_graphs :: "(prefix \<times> 'n prop_graph) list \<Rightarrow> error + ('n, 'n net_info) merged_graph" where
  "merge_graphs graphs = foldM merge_graph graphs mg_empty"


text \<open>\<open>merged._node[node]['nets'][net]\<close>.\<close>

definition mg_entry :: "('n, 'i) merged_graph \<Rightarrow> 'n \<Rightarrow> prefix \<Rightarrow> error + 'i" where
  "mg_entry m n net = ebind (mg_nets m n) (\<lambda>nets. dict_get nets net)"


subsection \<open>Merging one node entry\<close>








subsection \<open>Merging the edges\<close>




subsection \<open>Merging the graphs of all prefixes\<close>




section \<open>The state of the propagation engine\<close>

text \<open>
  Modelled from the spec: the requirement classes of \<open>synet.utils.common\<close> are not part
  of the sources. A requirement is a \<open>PathReq\<close> (one router sequence), a \<open>PathOrderReq\<close>
  (ranked list), a \<open>KConnectedPathsReq\<close> (unordered set) or an \<open>ECMPPathsReq\<close>
  (equal-preference set), each with its destination prefix \<open>dst_net\<close>.
\<close>

datatype Req =
    PathReq prefix "node list"
  | PathOrderReq prefix "Req list"
  | KConnectedPathsReq prefix "Req list"
  | ECMPPathsReq prefix "Req list"

fun dst_net :: "Req \<Rightarrow> prefix" where
  "dst_net (PathReq net _) = net"
| "dst_net (PathOrderReq net _) = net"
| "dst_net (KConnectedPathsReq net _) = net"
| "dst_net (ECMPPathsReq net _) = net"

text \<open>The fields of an \<open>EBGPPropagation\<close> object that the modelled methods use.\<close>

record EBGPPropagation =
  reqs :: "Req list"
  network_graph :: NetworkGraph
  ibgp_zones :: "(asn \<times> node ugraph) list"
  ebgp_graphs :: "(prefix \<times> asn prop_graph) list"
  ibgp_graphs :: "(prefix \<times> node prop_graph) list"
  ebgp_propagation :: "(asn, asn net_info) merged_graph option"
  ibgp_propagation :: "(node, node net_info) merged_graph option"

text \<open>
  \<open>merge_dags\<close>: the source writes the same loop once for the eBGP graphs and once for
  the router-level graphs; \<open>merge_graphs\<close> is that loop.
\<close>

definition merge_dags :: "EBGPPropagation \<Rightarrow> error + EBGPPropagation" where
  "merge_dags self =
     ebind (merge_graphs (ebgp_graphs self)) (\<lambda>e.
     ebind (merge_graphs (ibgp_graphs self)) (\<lambda>i.
     Inr (self\<lparr>ebgp_propagation := Some e, ibgp_propagation := Some i\<rparr>)))"







section \<open>Requirements and the per-prefix graphs\<close>

type_synonym as_facts = "(node \<times> asn list) list list"
type_synonym router_facts = "(node \<times> node list) list list"

text \<open>
  \<open>extract_reqs\<close>. \<open>extract_req\<close> is the body of its loop: what one requirement
  appends to \<open>as_paths\<close> and to \<open>router_paths\<close>. A set is the list of its distinct
  elements. Modelled from the spec: \<open>flatten\<close> of \<open>synet.utils.common\<close> is not part of the
  sources; it merges the member sets into one list (\<open>concat\<close>).
\<close>

fun extract_reqs :: "NetworkGraph \<Rightarrow> Req list \<Rightarrow> error + (as_facts \<times> router_facts)"
  and extract_req :: "NetworkGraph \<Rightarrow> Req \<Rightarrow> error + (as_facts \<times> router_facts)" where
  "extract_reqs g [] = Inr ([], [])"
| "extract_reqs g (r # rs) =
     (case extract_req g r of
        Inl e \<Rightarrow> Inl e
      | Inr (a1, r1) \<Rightarrow>
          (case extract_reqs g rs of
             Inl e \<Rightarrow> Inl e
           | Inr (a2, r2) \<Rightarrow> Inr (a1 @ a2, r1 @ r2)))"
| "extract_req g (PathReq net p) =
     (case get_bgp_path g p of
        Inl e \<Rightarrow> Inl e
      | Inr bgp_path \<Rightarrow>
          if p = [] then Inl IndexError
          else Inr ([[(last p, bgp_path)]], [[(last p, rev p)]]))"
| "extract_req g (PathOrderReq net ps) = extract_reqs g ps"
| "extract_req g (KConnectedPathsReq net ps) =
     (case extract_reqs g ps of
        Inl e \<Rightarrow> Inl e
      | Inr (bgp_facts, full) \<Rightarrow> Inr ([remdups (concat bgp_facts)], [remdups (concat full)]))"
| "extract_req g (ECMPPathsReq net ps) = Inl ValueError"

text \<open>\<open>s.add(x)\<close> on a set.\<close>

definition set_add :: "'a list \<Rightarrow> 'a \<Rightarrow> 'a list" where
  "set_add s x = (if x \<in> set s then s else s @ [x])"

text \<open>\<open>s.union(t)\<close>.\<close>

definition set_union :: "'a list \<Rightarrow> 'a list \<Rightarrow> 'a list" where
  "set_union s t = foldl set_add s t"

text \<open>The first loop of \<open>expand_ebgp_graph\<close>: the origins of every first AS number.\<close>

definition origins_step :: "node \<times> asn list \<Rightarrow> (asn \<times> node list) list \<Rightarrow> error + (asn \<times> node list) list" where
  "origins_step = (\<lambda>(origin, p) origs.
     case p of
       [] \<Rightarrow> Inl IndexError
     | k # _ \<Rightarrow>
         (let origs1 = (if map_of origs k = None then AList.update k [] origs else origs)
          in ebind (dict_get origs1 k) (\<lambda>s. Inr (AList.update k (set_add s origin) origs1))))"

text \<open>The loop that fills \<open>expanded_paths\<close>.\<close>

definition expanded_step ::
  "NetworkGraph \<Rightarrow> (asn \<times> node ugraph) list \<Rightarrow> (asn \<times> node list) list \<Rightarrow> asn list
     \<Rightarrow> (asn list \<times> node list list) list \<Rightarrow> error + (asn list \<times> node list list) list" where
  "expanded_step g zones origs p expanded_paths =
     (case p of
        [] \<Rightarrow> Inl IndexError
      | k # _ \<Rightarrow>
          ebind (dict_get origs k) (\<lambda>os.
          ebind (expand_as_path g zones p os) (\<lambda>ps.
          Inr (AList.update p ps expanded_paths))))"

text \<open>
  The last loop: an expanded path that its last router does not already have among its
  \<open>paths\<close> is added to the router's \<open>block\<close> set.
\<close>

definition block_step :: "node list \<Rightarrow> node prop_graph \<Rightarrow> error + node prop_graph" where
  "block_step p expanded =
     (if p = [] then Inl IndexError
      else
        (let n = last p
         in ebind (dict_get (pg_nodes expanded) n) (\<lambda>a.
              if p \<in> set (paths a) then Inr expanded
              else Inr (expanded\<lparr>pg_nodes :=
                     AList.update n (a\<lparr>block := set_add (block a) p\<rparr>) (pg_nodes expanded)\<rparr>))))"

definition expand_ebgp_graph ::
  "NetworkGraph \<Rightarrow> (asn \<times> node ugraph) list \<Rightarrow> asn prop_graph \<Rightarrow> node prop_graph \<Rightarrow> as_facts
     \<Rightarrow> error + node prop_graph" where
  "expand_ebgp_graph g zones graph expanded ebgp_paths =
     ebind (foldM origins_step (concat ebgp_paths) []) (\<lambda>origs.
     (let all_paths = foldl (\<lambda>acc (n, a). foldl set_add acc (set_union (paths a) (block a)))
                        [] (pg_nodes graph)
      in ebind (foldM (expanded_step g zones origs) all_paths []) (\<lambda>expanded_paths.
         foldM block_step (concat (map snd expanded_paths)) expanded)))"


section \<open>Partial evaluation of the propagated facts\<close>

text \<open>
  Modelled from the spec: the class \<open>PropagatedInfo\<close> of \<open>synet.utils.bgp_utils\<close> is not
  part of the sources. Its fields are the keyword arguments of the constructor call in
  \<open>partial_eval_propagated_info\<close> and the back-reference \<open>prev\<close>, unset on a new object.
  The fields carry the prefix \<open>pi_\<close>. An AS path holds what \<open>get_bgp_asnum\<close> returns
  (\<open>None\<close> for a router without BGP) followed by the AS numbers of the announcement.
  Objects live in a store, a list indexed by reference; \<open>copy.copy\<close> allocates a new
  object, two objects are never the same element of a set, and \<open>prev\<close> is a reference.
\<close>

record PropagatedInfo =
  pi_external_peer :: "node option"
  pi_egress :: "node option"
  pi_ann_name :: prefix
  pi_peer :: "node option"
  pi_as_path :: "asn option list"
  pi_as_path_len :: nat
  pi_path :: "node list"
  pi_prev :: "nat option"

type_synonym store = "PropagatedInfo list"

definition alloc :: "store \<Rightarrow> PropagatedInfo \<Rightarrow> nat \<times> store" where
  "alloc h v = (length h, h @ [v])"

text \<open>The body of the loop of \<open>get_as_path\<close>, on a router \<open>n\<close> and its predecessor \<open>pv\<close>.\<close>

definition as_path_step ::
  "NetworkGraph \<Rightarrow> node \<times> node \<Rightarrow> node option \<times> node option \<times> node option \<times> asn option list
     \<Rightarrow> error + node option \<times> node option \<times> node option \<times> asn option list" where
  "as_path_step g = (\<lambda>(pv, n) (ext, egr, per, asp).
     ebind (is_bgp_enabled g n) (\<lambda>bn.
       if \<not> bn then Inr (ext, egr, per, asp)
       else
         ebind (is_bgp_enabled g pv) (\<lambda>bp.
         ebind (if bp then
                  ebind (get_bgp_asnum g n) (\<lambda>an.
                  ebind (get_bgp_asnum g pv) (\<lambda>ap.
                    Inr (if an \<noteq> ap then (Some pv, Some n, Some pv) else (ext, egr, Some pv))))
                else Inr (ext, egr, per)) (\<lambda>(ext1, egr1, per1).
         ebind (get_bgp_asnum g n) (\<lambda>an.
           Inr (ext1, egr1, per1, if asp = [] \<or> last asp \<noteq> an then asp @ [an] else asp))))))"

definition get_as_path ::
  "NetworkGraph \<Rightarrow> node list \<Rightarrow> error + node option \<times> node option \<times> node option \<times> asn option list" where
  "get_as_path g p =
     (if p = [] then Inl AssertionError
      else if length p = 1 then
        ebind (get_bgp_asnum g (hd p)) (\<lambda>a0. Inr (None, None, None, rev [a0]))
      else
        ebind (get_bgp_asnum g (hd p)) (\<lambda>a0.
        ebind (foldM (as_path_step g) (zip p (tl p)) (None, None, None, [a0]))
          (\<lambda>(ext, egr, per, asp). Inr (ext, egr, per, rev asp))))"

text \<open>
  The body of the loop over \<open>paths \<union> block\<close>: a path already in the cache is skipped;
  otherwise the announcement of the origin router for the prefix is looked up and the
  fact is built and cached under the path.
\<close>

definition cache_step ::
  "NetworkGraph \<Rightarrow> prefix \<Rightarrow> node list \<Rightarrow> (node list \<times> PropagatedInfo) list
     \<Rightarrow> error + (node list \<times> PropagatedInfo) list" where
  "cache_step g net p cache =
     (if map_of cache p \<noteq> None then Inr cache
      else
        ebind (get_as_path g p) (\<lambda>(ext, egr, per, asp).
        (let ann_source = hd p
         in ebind (get_bgp_advertise g ann_source) (\<lambda>anns.
              case find (\<lambda>ann. ann_prefix ann = net) anns of
                None \<Rightarrow> Inl (CouldntFindAnnouncement net ann_source anns)
              | Some ann \<Rightarrow>
                  (let asp1 = asp @ map Some (ann_as_path ann)
                   in Inr (AList.update p
                        \<lparr>pi_external_peer = ext, pi_egress = egr, pi_ann_name = net,
                          pi_peer = per, pi_as_path = asp1, pi_as_path_len = length asp1,
                          pi_path = p, pi_prev = None\<rparr> cache))))))"

text \<open>\<open>info = copy.copy(cache[path])\<close>.\<close>

definition copy_cached :: "(node list \<times> PropagatedInfo) list \<Rightarrow> node list \<Rightarrow> store \<Rightarrow> error + nat \<times> store" where
  "copy_cached cache p h = ebind (dict_get cache p) (\<lambda>v. Inr (alloc h v))"

text \<open>The inner loop over one set of \<open>attrs['order']\<close>.\<close>

definition order_path_step ::
  "(node list \<times> PropagatedInfo) list \<Rightarrow> node list \<Rightarrow> nat list \<times> nat list \<times> store
     \<Rightarrow> error + nat list \<times> nat list \<times> store" where
  "order_path_step cache p = (\<lambda>(new_set, pinfo, h).
     ebind (copy_cached cache p h) (\<lambda>(a, h1). Inr (new_set @ [a], pinfo @ [a], h1)))"

definition order_set_step ::
  "(node list \<times> PropagatedInfo) list \<Rightarrow> node list list \<Rightarrow> nat list list \<times> nat list \<times> store
     \<Rightarrow> error + nat list list \<times> nat list \<times> store" where
  "order_set_step cache ps = (\<lambda>(oinfo, pinfo, h).
     ebind (foldM (order_path_step cache) ps ([], pinfo, h)) (\<lambda>(new_set, pinfo1, h1).
       Inr (oinfo @ [new_set], pinfo1, h1)))"

definition block_path_step ::
  "(node list \<times> PropagatedInfo) list \<Rightarrow> node list \<Rightarrow> nat list \<times> store \<Rightarrow> error + nat list \<times> store" where
  "block_path_step cache p = (\<lambda>(binfo, h).
     ebind (copy_cached cache p h) (\<lambda>(a, h1). Inr (binfo @ [a], h1)))"

text \<open>The body of the first loop over \<open>nets.items()\<close>, for one prefix of one node.\<close>

definition eval_entry ::
  "NetworkGraph \<Rightarrow> prefix \<Rightarrow> node net_info \<Rightarrow> store \<times> (node list \<times> PropagatedInfo) list
     \<Rightarrow> error + node net_info \<times> store \<times> (node list \<times> PropagatedInfo) list" where
  "eval_entry g net attrs = (\<lambda>(h, cache).
     ebind (foldM (cache_step g net) (set_union (info_paths attrs) (info_block attrs)) cache) (\<lambda>cache1.
     ebind (foldM (order_set_step cache1) (info_order attrs) ([], [], h)) (\<lambda>(oinfo, pinfo, h1).
     ebind (foldM (block_path_step cache1) (info_block attrs) ([], h1)) (\<lambda>(binfo, h2).
       Inr (attrs\<lparr>order_info := Some oinfo, block_info := Some binfo, paths_info := Some pinfo\<rparr>,
            h2, cache1)))))"

text \<open>A loop that rebuilds a dictionary entry by entry while threading a state.\<close>

primrec mapM_dict :: "('k \<Rightarrow> 'v \<Rightarrow> 's \<Rightarrow> error + 'v \<times> 's) \<Rightarrow> ('k \<times> 'v) list \<Rightarrow> 's \<Rightarrow> error + ('k \<times> 'v) list \<times> 's" where
  "mapM_dict f [] s = Inr ([], s)"
| "mapM_dict f (kv # kvs) s =
     ebind (f (fst kv) (snd kv) s) (\<lambda>(v1, s1).
     ebind (mapM_dict f kvs s1) (\<lambda>(rest, s2). Inr ((fst kv, v1) # rest, s2)))"

text \<open>The first loop over the nodes: a node without the \<open>nets\<close> key raises \<open>KeyError\<close>.\<close>

definition eval_node ::
  "NetworkGraph \<Rightarrow> node \<Rightarrow> (prefix \<times> node net_info) list option
     \<Rightarrow> store \<times> (node list \<times> PropagatedInfo) list
     \<Rightarrow> error + (prefix \<times> node net_info) list option \<times> store \<times> (node list \<times> PropagatedInfo) list" where
  "eval_node g n nets_opt s =
     (case nets_opt of
        None \<Rightarrow> Inl KeyError
      | Some nets \<Rightarrow> ebind (mapM_dict (eval_entry g) nets s) (\<lambda>(nets1, s1). Inr (Some nets1, s1)))"


text \<open>\<open>d[k]\<close> on a key that was added later, if at all.\<close>

definition opt_get :: "'a option \<Rightarrow> error + 'a" where
  "opt_get x = (case x of None \<Rightarrow> Inl KeyError | Some v \<Rightarrow> Inr v)"

text \<open>
  \<open>find_prev_prop\<close>. A fact without a peer makes \<open>get_bgp_asnum(None)\<close> fail its
  assertion, since \<open>None\<close> is not a router.
\<close>

definition find_prev_prop ::
  "NetworkGraph \<Rightarrow> (node, node net_info) merged_graph \<Rightarrow> store \<Rightarrow> node \<Rightarrow> prefix \<Rightarrow> nat
     \<Rightarrow> error + nat option" where
  "find_prev_prop g mg h n net a =
     ebind (get_bgp_asnum g n) (\<lambda>as_num.
       (let propagated = h ! a
        in if length (pi_path propagated) < 2 then Inr None
           else
             ebind (case pi_peer propagated of
                      None \<Rightarrow> Inl AssertionError
                    | Some nb \<Rightarrow> ebind (get_bgp_asnum g nb) (\<lambda>neighbor_as_num. Inr nb)) (\<lambda>nb.
             ebind (mg_entry mg nb net) (\<lambda>neighbor_attrs.
             ebind (opt_get (paths_info neighbor_attrs)) (\<lambda>pinfo.
             ebind (opt_get (block_info neighbor_attrs)) (\<lambda>binfo.
               Inr (find (\<lambda>b. butlast (pi_path propagated) = pi_path (h ! b))
                      (set_union pinfo binfo))))))))"

text \<open>\<open>merged._node[node]['nets'][net] = v\<close> on an existing entry.\<close>

definition mg_set_entry ::
  "('n, 'i) merged_graph \<Rightarrow> 'n \<Rightarrow> prefix \<Rightarrow> 'i \<Rightarrow> ('n, 'i) merged_graph" where
  "mg_set_entry mg n net v =
     mg\<lparr>mg_nodes := map (\<lambda>(n', x). if n' = n then (n', map_option (AList.update net v) x) else (n', x))
                        (mg_nodes mg)\<rparr>"

text \<open>The body of the second loop, for one fact of one prefix of one node.\<close>

definition prev_step ::
  "NetworkGraph \<Rightarrow> node \<Rightarrow> prefix \<Rightarrow> nat \<Rightarrow> (node, node net_info) merged_graph \<times> store
     \<Rightarrow> error + (node, node net_info) merged_graph \<times> store" where
  "prev_step g n net a = (\<lambda>(mg, h).
     if length (pi_path (h ! a)) < 2 then Inr (mg, h)
     else
       ebind (find_prev_prop g mg h n net a) (\<lambda>origin.
       ebind (mg_entry mg n net) (\<lambda>attrs.
         Inr (mg_set_entry mg n net
                (attrs\<lparr>origins := Some (AList.update a origin
                                          (case origins attrs of None \<Rightarrow> [] | Some og \<Rightarrow> og))\<rparr>),
              h[a := (h ! a)\<lparr>pi_prev := origin\<rparr>]))))"

definition prev_entry ::
  "NetworkGraph \<Rightarrow> node \<Rightarrow> prefix \<Rightarrow> (node, node net_info) merged_graph \<times> store
     \<Rightarrow> error + (node, node net_info) merged_graph \<times> store" where
  "prev_entry g n net = (\<lambda>(mg, h).
     ebind (mg_entry mg n net) (\<lambda>attrs.
     ebind (opt_get (paths_info attrs)) (\<lambda>pinfo.
     ebind (opt_get (block_info attrs)) (\<lambda>binfo.
       foldM (prev_step g n net) (set_union pinfo binfo) (mg, h)))))"

definition prev_node ::
  "NetworkGraph \<Rightarrow> node \<Rightarrow> (node, node net_info) merged_graph \<times> store
     \<Rightarrow> error + (node, node net_info) merged_graph \<times> store" where
  "prev_node g n = (\<lambda>(mg, h).
     ebind (mg_nets mg n) (\<lambda>nets. foldM (prev_entry g n) (map fst nets) (mg, h)))"

text \<open>
  \<open>partial_eval_propagated_info\<close> on the merged router-level graph: the graph with the
  facts attached, the store of the facts, and the set of the AS paths in the cache.
\<close>

definition partial_eval_propagated_info ::
  "NetworkGraph \<Rightarrow> (node, node net_info) merged_graph
     \<Rightarrow> error + (node, node net_info) merged_graph \<times> store \<times> asn option list list" where
  "partial_eval_propagated_info g mg =
     ebind (mapM_dict (eval_node g) (mg_nodes mg) ([], [])) (\<lambda>(nodes1, h, cache).
     (let mg1 = mg\<lparr>mg_nodes := nodes1\<rparr>
      in ebind (foldM (prev_node g) (map fst (mg_nodes mg1)) (mg1, h)) (\<lambda>(mg2, h2).
           Inr (mg2, h2, remdups (map (\<lambda>kv. pi_as_path (snd kv)) cache)))))"

section \<open>compute\_dags\<close>

text \<open>
  The external collaborators: \<open>compute_propagation\<close> on the AS-level peering graph of
  \<open>self.verify\<close> and on the topology, and the ordering-violation checker
  \<open>self.verify.check_order\<close>, whose violations have the type \<open>'v\<close>.
\<close>

record 'v externals =
  compute_propagation_ebgp :: "as_facts \<Rightarrow> asn prop_graph"
  compute_propagation_ibgp :: "NetworkGraph \<Rightarrow> router_facts \<Rightarrow> node prop_graph"
  check_order :: "asn prop_graph \<Rightarrow> 'v list"

text \<open>Grouping the requirements by destination prefix.\<close>

definition group_req :: "(prefix \<times> Req list) list \<Rightarrow> Req \<Rightarrow> (prefix \<times> Req list) list" where
  "group_req net_reqs r =
     (let nr1 = (if map_of net_reqs (dst_net r) = None then AList.update (dst_net r) [] net_reqs
                 else net_reqs)
      in case map_of nr1 (dst_net r) of
           None \<Rightarrow> nr1
         | Some rs \<Rightarrow> AList.update (dst_net r) (rs @ [r]) nr1)"

text \<open>\<open>clear = [x for x in order if x]\<close> on the node of a router-level graph.\<close>

definition clear_order :: "node prop_graph \<Rightarrow> node prop_graph" where
  "clear_order ig =
     ig\<lparr>pg_nodes := map (\<lambda>(n, a). (n, a\<lparr>order := filter (\<lambda>x. x \<noteq> []) (order a)\<rparr>)) (pg_nodes ig)\<rparr>"

text \<open>
  The body of the loop over the prefixes. The local variable \<open>unmatching_order\<close> is
  unbound before the first pass; every pass assigns it.
\<close>

definition dag_step ::
  "'v externals \<Rightarrow> prefix \<times> Req list \<Rightarrow> EBGPPropagation \<times> 'v list option
     \<Rightarrow> error + EBGPPropagation \<times> 'v list option" where
  "dag_step ext = (\<lambda>(net, rs) (self, unmatching_order).
     ebind (extract_reqs (network_graph self) rs) (\<lambda>(ebgp_paths, ibgp_paths).
     (let ebgp = compute_propagation_ebgp ext ebgp_paths;
          ibgp = clear_order (compute_propagation_ibgp ext (network_graph self) ibgp_paths);
          unmatching_order1 = check_order ext ebgp
      in ebind (expand_ebgp_graph (network_graph self) (ibgp_zones self) ebgp ibgp ebgp_paths)
           (\<lambda>ibgp1.
             Inr (self\<lparr>ebgp_graphs := AList.update net ebgp (ebgp_graphs self),
                       ibgp_graphs := AList.update net ibgp1 (ibgp_graphs self)\<rparr>,
                  Some unmatching_order1)))))"

text \<open>
  \<open>compute_dags\<close> returns the object, the store of facts, the AS paths handed to
  \<open>ctx.create_enum_type\<close>, and the value of \<open>unmatching_order\<close>.
\<close>

definition compute_dags ::
  "'v externals \<Rightarrow> EBGPPropagation
     \<Rightarrow> error + EBGPPropagation \<times> store \<times> asn option list list \<times> 'v list" where
  "compute_dags ext self =
     ebind (foldM (dag_step ext) (foldl group_req [] (reqs self)) (self, None))
       (\<lambda>(self1, unmatching_order).
     ebind (merge_dags self1) (\<lambda>self2.
     ebind (opt_get (ibgp_propagation self2)) (\<lambda>mg.
     ebind (partial_eval_propagated_info (network_graph self2) mg) (\<lambda>(mg1, h, as_paths).
       case unmatching_order of
         None \<Rightarrow> Inl UnboundLocalError
       | Some v \<Rightarrow> Inr (self2\<lparr>ibgp_propagation := Some mg1\<rparr>, h, as_paths, v)))))"


section \<open>Two routers in two autonomous systems\<close>

definition topo_pair :: NetworkGraph where
  "topo_pair = \<lparr>
     node_tab =
       [(''R1'', \<lparr>vertex_type = Some ROUTER,
                  bgp = Some \<lparr>asnum = Some 10, neighbors = [''R2''],
                               advertise = [\<lparr>ann_prefix = ''P1'', ann_as_path = [5]\<rparr>]\<rparr>\<rparr>),
        (''R2'', \<lparr>vertex_type = Some ROUTER,
                  bgp = Some \<lparr>asnum = Some 20, neighbors = [''R1''], advertise = []\<rparr>\<rparr>)],
     edge_tab = [((''R1'', ''R2''), ROUTER_EDGE), ((''R2'', ''R1''), ROUTER_EDGE)]\<rparr>"


definition pair_graph :: "node prop_graph" where
  "pair_graph = \<lparr>pg_nodes = [(''R1'', \<lparr>order = [[[''R1'']]], paths = [[''R1'']], block = []\<rparr>),
                               (''R2'', \<lparr>order = [[[''R1'', ''R2'']]], paths = [[''R1'', ''R2'']],
                                          block = []\<rparr>)],
                   pg_edges = [(''R1'', ''R2'')]\<rparr>"

text \<open>
  \<open>__init__\<close>: the zones are extracted from the topology and the per-prefix and merged
  graphs start empty. The router identifiers that it registers with the solver context
  are not modelled.
\<close>

definition new_propagation :: "Req list \<Rightarrow> NetworkGraph \<Rightarrow> error + EBGPPropagation" where
  "new_propagation rs g =
     ebind (extract_ibgp_zones g) (\<lambda>zones.
       Inr \<lparr>reqs = rs, network_graph = g, ibgp_zones = zones, ebgp_graphs = [],
            ibgp_graphs = [], ebgp_propagation = None, ibgp_propagation = None\<rparr>)"

subsection \<open>Order lists without empty entries\<close>

definition order_clean :: "'n prop_graph \<Rightarrow> bool" where
  "order_clean G = list_all (\<lambda>(n, a). [] \<notin> set (order a)) (pg_nodes G)"

lemma clear_order_clean: "order_clean (clear_order G)"
  by (auto simp: order_clean_def clear_order_def list_all_iff)

lemma set_alist_update: "set (AList.update k v al) \<subseteq> insert (k, v) (set al)"
  by (induction al) auto

lemma block_step_clean:
  assumes "block_step p G = Inr G'" "order_clean G"
  shows "order_clean G'"
proof (cases "p = []")
  case True
  then show ?thesis using assms by (simp add: block_step_def)
next
  case False
  with assms(1) obtain a where a: "dict_get (pg_nodes G) (last p) = Inr a"
    and G': "G' = (if p \<in> set (paths a) then G
                   else G\<lparr>pg_nodes := AList.update (last p) (a\<lparr>block := set_add (block a) p\<rparr>) (pg_nodes G)\<rparr>)"
    by (auto simp: block_step_def Let_def ebind_Inr_iff split: if_splits)
  from a have mem: "(last p, a) \<in> set (pg_nodes G)"
    by (auto simp: dict_get_def split: option.splits dest: map_of_SomeD)
  then have ca: "[] \<notin> set (order a)" using assms(2) by (auto simp: order_clean_def list_all_iff)
  show ?thesis
  proof (cases "p \<in> set (paths a)")
    case True
    then show ?thesis using G' assms(2) by simp
  next
    case False
    have "set (AList.update (last p) (a\<lparr>block := set_add (block a) p\<rparr>) (pg_nodes G))
          \<subseteq> insert (last p, a\<lparr>block := set_add (block a) p\<rparr>) (set (pg_nodes G))"
      by (rule set_alist_update)
    then show ?thesis using G' False assms(2) ca
      by (auto simp: order_clean_def list_all_iff)
  qed
qed

lemma expand_ebgp_graph_clean:
  assumes "expand_ebgp_graph g zones graph expanded facts = Inr G'" "order_clean expanded"
  shows "order_clean G'"
proof -
  from assms(1) obtain ps where "foldM block_step ps expanded = Inr G'"
    unfolding expand_ebgp_graph_def Let_def ebind_Inr_iff by blast
  then show ?thesis using assms(2)
    by (rule foldM_inv) (rule block_step_clean)
qed


lemma dag_step_effect:
  assumes "dag_step ext (net, rs) (s, u) = Inr (s', u')"
  shows "\<exists>e i. ibgp_graphs s' = AList.update net i (ibgp_graphs s) \<and> order_clean i
           \<and> ebgp_graphs s' = AList.update net e (ebgp_graphs s)
           \<and> u' = Some (check_order ext e)"
proof -
  from assms obtain ef rf where facts: "extract_reqs (network_graph s) rs = Inr (ef, rf)"
    and body: "(let ebgp = compute_propagation_ebgp ext ef;
          ibgp = clear_order (compute_propagation_ibgp ext (network_graph s) rf);
          unmatching_order1 = check_order ext ebgp
      in ebind (expand_ebgp_graph (network_graph s) (ibgp_zones s) ebgp ibgp ef)
           (\<lambda>ibgp1.
             Inr (s\<lparr>ebgp_graphs := AList.update net ebgp (ebgp_graphs s),
                       ibgp_graphs := AList.update net ibgp1 (ibgp_graphs s)\<rparr>,
                  Some unmatching_order1))) = Inr (s', u')"
    unfolding dag_step_def prod.case ebind_Inr_iff by auto
  let ?e = "compute_propagation_ebgp ext ef"
  let ?i0 = "clear_order (compute_propagation_ibgp ext (network_graph s) rf)"
  from body obtain i where i: "expand_ebgp_graph (network_graph s) (ibgp_zones s) ?e ?i0 ef = Inr i"
    and res: "s' = s\<lparr>ebgp_graphs := AList.update net ?e (ebgp_graphs s),
                       ibgp_graphs := AList.update net i (ibgp_graphs s)\<rparr>"
      "u' = Some (check_order ext ?e)"
    unfolding Let_def ebind_Inr_iff by auto
  have "order_clean i" using i clear_order_clean by (rule expand_ebgp_graph_clean)
  then show ?thesis using res by auto
qed

lemma dag_fold_clean:
  assumes "foldM (dag_step ext) l (s, u) = Inr (s', u')" "distinct (map fst l)"
  shows "(\<forall>net \<in> fst ` set l. \<exists>G. map_of (ibgp_graphs s') net = Some G \<and> order_clean G)
       \<and> (\<forall>net. net \<notin> fst ` set l \<longrightarrow> map_of (ibgp_graphs s') net = map_of (ibgp_graphs s) net)"
  using assms
proof (induction l arbitrary: s u)
  case Nil
  then show ?case by simp
next
  case (Cons x l)
  obtain net rs where x: "x = (net, rs)" by (cases x)
  from Cons.prems(1) obtain s1 u1 where step: "dag_step ext (net, rs) (s, u) = Inr (s1, u1)"
    and rest: "foldM (dag_step ext) l (s1, u1) = Inr (s', u')"
    unfolding x foldM.simps ebind_Inr_iff by auto
  from dag_step_effect [OF step] obtain i where
    i: "ibgp_graphs s1 = AList.update net i (ibgp_graphs s)" "order_clean i" by blast
  have d: "distinct (map fst l)" and fresh: "net \<notin> fst ` set l"
    using Cons.prems(2) x by auto
  note ih = Cons.IH [OF rest d]
  have "map_of (ibgp_graphs s') net = Some i"
    using ih fresh i(1) by (simp add: update_conv')
  moreover have "\<forall>n. n \<notin> fst ` set (x # l) \<longrightarrow> map_of (ibgp_graphs s') n = map_of (ibgp_graphs s) n"
    using ih i(1) x by (auto simp: update_conv')
  ultimately show ?case using ih i(2) x by auto
qed

lemma group_req_keys:
  "distinct (map fst nr) \<Longrightarrow> distinct (map fst (group_req nr r))"
  "fst ` set (group_req nr r) = insert (dst_net r) (fst ` set nr)"
  by (auto simp: group_req_def Let_def distinct_update dom_update update_conv' split: option.splits)

lemma group_reqs_keys:
  "distinct (map fst nr) \<Longrightarrow> distinct (map fst (foldl group_req nr rs))"
  "fst ` set (foldl group_req nr rs) = dst_net ` set rs \<union> fst ` set nr"
  by (induction rs arbitrary: nr) (auto simp: group_req_keys)

lemma merge_dags_graphs:
  assumes "merge_dags s = Inr s'"
  shows "ibgp_graphs s' = ibgp_graphs s \<and> ebgp_graphs s' = ebgp_graphs s"
  using assms by (auto simp: merge_dags_def ebind_Inr_iff)

lemma compute_dags_Inr:
  assumes "compute_dags ext self = Inr (self', h, aps, v)"
  shows "\<exists>s1 s2 mg mg1.
           foldM (dag_step ext) (foldl group_req [] (reqs self)) (self, None) = Inr (s1, Some v)
           \<and> merge_dags s1 = Inr s2 \<and> ibgp_propagation s2 = Some mg
           \<and> partial_eval_propagated_info (network_graph s2) mg = Inr (mg1, h, aps)
           \<and> self' = s2\<lparr>ibgp_propagation := Some mg1\<rparr>"
proof -
  from assms obtain x where fold: "foldM (dag_step ext) (foldl group_req [] (reqs self)) (self, None) = Inr x"
    and r1: "(case x of (self1, unmatching_order) \<Rightarrow>
     ebind (merge_dags self1) (\<lambda>self2.
     ebind (opt_get (ibgp_propagation self2)) (\<lambda>mg.
     ebind (partial_eval_propagated_info (network_graph self2) mg) (\<lambda>(mg1, h, as_paths).
       case unmatching_order of
         None \<Rightarrow> Inl UnboundLocalError
       | Some v \<Rightarrow> Inr (self2\<lparr>ibgp_propagation := Some mg1\<rparr>, h, as_paths, v))))) = Inr (self', h, aps, v)"
    unfolding compute_dags_def ebind_Inr_iff by blast
  obtain s1 u where x: "x = (s1, u)" by (cases x)
  from r1 [unfolded x prod.case ebind_Inr_iff] obtain s2 mg y where
    merge: "merge_dags s1 = Inr s2" and mg: "opt_get (ibgp_propagation s2) = Inr mg"
    and pe: "partial_eval_propagated_info (network_graph s2) mg = Inr y"
    and r2: "(case y of (mg1, h, as_paths) \<Rightarrow>
       case u of
         None \<Rightarrow> Inl UnboundLocalError
       | Some v \<Rightarrow> Inr (s2\<lparr>ibgp_propagation := Some mg1\<rparr>, h, as_paths, v)) = Inr (self', h, aps, v)"
    by blast
  obtain mg1 h1 aps1 where y: "y = (mg1, h1, aps1)" by (cases y)
  from r2 have "u = Some v" "self' = s2\<lparr>ibgp_propagation := Some mg1\<rparr>" "h1 = h" "aps1 = aps"
    unfolding y by (auto split: option.splits)
  moreover have "ibgp_propagation s2 = Some mg"
    using mg by (auto simp: opt_get_def split: option.splits)
  ultimately show ?thesis using fold merge pe x y by blast
qed

subsection \<open>A run on two prefixes\<close>

definition topo_two_origins :: NetworkGraph where
  "topo_two_origins = \<lparr>
     node_tab =
       [(''R1'', \<lparr>vertex_type = Some ROUTER,
                  bgp = Some \<lparr>asnum = Some 10, neighbors = [''R2''],
                               advertise = [\<lparr>ann_prefix = ''P1'', ann_as_path = []\<rparr>]\<rparr>\<rparr>),
        (''R2'', \<lparr>vertex_type = Some ROUTER,
                  bgp = Some \<lparr>asnum = Some 20, neighbors = [''R1''],
                               advertise = [\<lparr>ann_prefix = ''P2'', ann_as_path = []\<rparr>]\<rparr>\<rparr>)],
     edge_tab = [((''R1'', ''R2''), ROUTER_EDGE), ((''R2'', ''R1''), ROUTER_EDGE)]\<rparr>"

text \<open>
  Stand-ins for the external collaborators: the AS-level primitive gives every AS of the
  facts a node with one empty rank, the router-level primitive gives every router of the
  facts its own one-router path behind an empty rank, and the checker reports AS 10.
\<close>

definition ext_demo :: "asn externals" where
  "ext_demo = \<lparr>
     compute_propagation_ebgp = (\<lambda>facts.
       \<lparr>pg_nodes = map (\<lambda>k. (k, \<lparr>order = [[]], paths = [], block = []\<rparr>))
                     (remdups (concat (map snd (concat facts)))),
        pg_edges = []\<rparr>),
     compute_propagation_ibgp = (\<lambda>g facts.
       \<lparr>pg_nodes = map (\<lambda>n. (n, \<lparr>order = [[], [[n]]], paths = [[n]], block = []\<rparr>))
                     (remdups (concat (map snd (concat facts)))),
        pg_edges = []\<rparr>),
     check_order = (\<lambda>G. filter (\<lambda>k. k = 10) (map fst (pg_nodes G)))\<rparr>"

definition reqs_demo :: "Req list" where
  "reqs_demo = [PathReq ''P1'' [''R1''], PathReq ''P2'' [''R2'']]"

definition state_demo :: EBGPPropagation where
  "state_demo = \<lparr>
     reqs = reqs_demo, network_graph = topo_two_origins,
     ibgp_zones = [(10, \<lparr>ug_nodes = [''R1''], ug_edges = []\<rparr>),
                   (20, \<lparr>ug_nodes = [''R2''], ug_edges = []\<rparr>)],
     ebgp_graphs = [], ibgp_graphs = [], ebgp_propagation = None, ibgp_propagation = None\<rparr>"

lemma new_propagation_demo: "new_propagation reqs_demo topo_two_origins = Inr state_demo"
  by code_simp

text \<open>
  C8. After \<open>compute_dags\<close>, the router-level graph stored for the prefix of every
  requirement has no empty entry in the order list of any node.
\<close>

theorem compute_dags_router_order_clean:
  assumes "compute_dags ext self = Inr (self', h, aps, v)" "r \<in> set (reqs self)"
  shows "\<exists>G. map_of (ibgp_graphs self') (dst_net r) = Some G
           \<and> list_all (\<lambda>(n, a). [] \<notin> set (order a)) (pg_nodes G)"
proof -
  from compute_dags_Inr [OF assms(1)] obtain s1 s2 mg1 where
    fold: "foldM (dag_step ext) (foldl group_req [] (reqs self)) (self, None) = Inr (s1, Some v)"
    and merge: "merge_dags s1 = Inr s2"
    and self': "self' = s2\<lparr>ibgp_propagation := Some mg1\<rparr>"
    by blast
  have d: "distinct (map fst (foldl group_req [] (reqs self)))" by (rule group_reqs_keys) simp
  have "dst_net r \<in> fst ` set (foldl group_req [] (reqs self))"
    using assms(2) by (simp add: group_reqs_keys(2))
  with dag_fold_clean [OF fold d] obtain G where
    "map_of (ibgp_graphs s1) (dst_net r) = Some G" "order_clean G" by blast
  then show ?thesis using merge_dags_graphs [OF merge] self' by (auto simp: order_clean_def)
qed


theorem compute_dags_router_order_clean_witness:
  "\<exists>self' h aps v.
     compute_dags ext_demo state_demo = Inr (self', h, aps, v)
     \<and> PathReq ''P1'' [''R1''] \<in> set (reqs state_demo)
     \<and> (\<exists>G. map_of (ibgp_graphs self') (dst_net (PathReq ''P1'' [''R1''])) = Some G
           \<and> list_all (\<lambda>(n, a). [] \<notin> set (order a)) (pg_nodes G))"
proof -
  have "(case compute_dags ext_demo state_demo of Inl e \<Rightarrow> False | Inr x \<Rightarrow> True)"
    by code_simp
  then obtain self' h aps v where run: "compute_dags ext_demo state_demo = Inr (self', h, aps, v)"
    by (cases "compute_dags ext_demo state_demo") auto
  have r: "PathReq ''P1'' [''R1''] \<in> set (reqs state_demo)"
    by (simp add: state_demo_def reqs_demo_def)
  from compute_dags_router_order_clean [OF run r] run r show ?thesis by blast
qed

text \<open>
  The eBGP graphs are stored as the external primitive returned them: here the order list
  of AS 10 for \<open>P1\<close> and of AS 20 for \<open>P2\<close> still holds the empty rank.
\<close>

theorem compute_dags_keeps_empty_ebgp_ranks:
  "ebind (new_propagation reqs_demo topo_two_origins) (\<lambda>self.
   ebind (compute_dags ext_demo self) (\<lambda>(self', h, aps, v).
     Inr (map (\<lambda>(net, G). (net, map (\<lambda>(n, a). (n, order a)) (pg_nodes G))) (ebgp_graphs self'))))
   = Inr [(''P1'', [(10, [[]])]), (''P2'', [(20, [[]])])]"
  by code_simp

text \<open>
  C5. With one requirement for the prefix \<open>P1\<close> and one for \<open>P2\<close>, the checker is run on
  the eBGP graph of each prefix and reports the violation \<open>10\<close> on the graph of \<open>P1\<close> and
  none on the graph of \<open>P2\<close>; \<open>compute_dags\<close> returns the empty list, the result for the
  prefix processed last, and the violation of \<open>P1\<close> is lost.
\<close>

theorem compute_dags_returns_last_prefix_only:
  "ebind (new_propagation reqs_demo topo_two_origins) (\<lambda>self.
   ebind (compute_dags ext_demo self) (\<lambda>(self', h, aps, v).
     Inr (map (\<lambda>(net, G). (net, check_order ext_demo G)) (ebgp_graphs self'), v)))
   = Inr ([(''P1'', [10]), (''P2'', [])], [])"
  by code_simp

section \<open>Properties of the partial evaluation\<close>

subsection \<open>The cache\<close>

definition cache_ok :: "(node list \<times> PropagatedInfo) list \<Rightarrow> bool" where
  "cache_ok c = (\<forall>p v. map_of c p = Some v \<longrightarrow>
      pi_path v = p \<and> pi_prev v = None \<and> pi_as_path_len v = length (pi_as_path v))"

text \<open>The fact that \<open>cache_step\<close> builds for an uncached path.\<close>

definition built_info ::
  "prefix \<Rightarrow> node list \<Rightarrow> node option \<times> node option \<times> node option \<times> asn option list \<Rightarrow> announcement
     \<Rightarrow> PropagatedInfo" where
  "built_info net p = (\<lambda>(ext, egr, per, asp) ann.
     \<lparr>pi_external_peer = ext, pi_egress = egr, pi_ann_name = net, pi_peer = per,
      pi_as_path = asp @ map Some (ann_as_path ann),
      pi_as_path_len = length (asp @ map Some (ann_as_path ann)),
      pi_path = p, pi_prev = None\<rparr>)"

lemma cache_step_hit:
  assumes "map_of c p \<noteq> None"
  shows "cache_step g net p c = Inr c"
  using assms by (simp add: cache_step_def)

lemma cache_step_miss:
  assumes "map_of c p = None" "get_as_path g p = Inr r" "get_bgp_advertise g (hd p) = Inr anns"
  shows "cache_step g net p c =
      (case find (\<lambda>ann. ann_prefix ann = net) anns of
         None \<Rightarrow> Inl (CouldntFindAnnouncement net (hd p) anns)
       | Some ann \<Rightarrow> Inr (AList.update p (built_info net p r ann) c))"
proof -
  obtain ext egr per asp where r: "r = (ext, egr, per, asp)" by (cases r)
  show ?thesis
    using assms unfolding r
    by (simp add: cache_step_def ebind_def Let_def built_info_def split: option.splits)
qed

lemma cache_step_Inr:
  assumes "cache_step g net p c = Inr c'"
  shows "(map_of c p \<noteq> None \<and> c' = c)
       \<or> (map_of c p = None \<and> (\<exists>r anns ann. get_as_path g p = Inr r
             \<and> get_bgp_advertise g (hd p) = Inr anns
             \<and> find (\<lambda>ann. ann_prefix ann = net) anns = Some ann
             \<and> c' = AList.update p (built_info net p r ann) c))"
proof (cases "map_of c p")
  case (Some v)
  then show ?thesis using assms by (simp add: cache_step_def)
next
  case None
  from assms None obtain r where r: "get_as_path g p = Inr r"
    by (cases "get_as_path g p") (auto simp: cache_step_def ebind_def)
  from assms None r obtain anns where anns: "get_bgp_advertise g (hd p) = Inr anns"
    by (cases "get_bgp_advertise g (hd p)"; cases r)
       (auto simp: cache_step_def ebind_def Let_def)
  from assms cache_step_miss [OF None r anns, of net] show ?thesis
    using None r anns by (auto split: option.splits)
qed

lemma built_info_ok:
  "pi_path (built_info net p r ann) = p" "pi_prev (built_info net p r ann) = None"
  "pi_as_path_len (built_info net p r ann) = length (pi_as_path (built_info net p r ann))"
  "pi_ann_name (built_info net p r ann) = net"
  by (cases r; simp add: built_info_def)+

lemma cache_step_keeps:
  assumes "cache_step g net q c = Inr c'" "map_of c p = Some v"
  shows "map_of c' p = Some v"
  using cache_step_Inr [OF assms(1)] assms(2) by (auto simp: update_conv')

lemma cache_step_other:
  assumes "cache_step g net q c = Inr c'" "q \<noteq> p"
  shows "map_of c' p = map_of c p"
  using cache_step_Inr [OF assms(1)] assms(2) by (auto simp: update_conv')

lemma cache_step_ok:
  assumes "cache_step g net q c = Inr c'" "cache_ok c"
  shows "cache_ok c'"
  using cache_step_Inr [OF assms(1)] assms(2)
  by (auto simp: cache_ok_def update_conv' built_info_ok split: if_splits)

lemma cache_step_cached:
  assumes "cache_step g net q c = Inr c'"
  shows "map_of c' q \<noteq> None"
  using cache_step_Inr [OF assms(1)] by (auto simp: update_conv')

lemma cache_fold_keeps:
  assumes "foldM (cache_step g net) qs c = Inr c'" "map_of c p = Some v"
  shows "map_of c' p = Some v"
  using assms(1,2) by (rule foldM_inv) (rule cache_step_keeps)

lemma cache_fold_ok:
  assumes "foldM (cache_step g net) qs c = Inr c'" "cache_ok c"
  shows "cache_ok c'"
  using assms(1,2) by (rule foldM_inv) (rule cache_step_ok)

lemma cache_fold_other:
  assumes "foldM (cache_step g net) qs c = Inr c'" "p \<notin> set qs"
  shows "map_of c' p = map_of c p"
proof -
  have "map_of c' p = map_of c p"
    using assms(1)
  proof (rule foldM_inv [where P = "\<lambda>x. map_of x p = map_of c p"])
    fix x s t
    assume "x \<in> set qs" "map_of s p = map_of c p" "cache_step g net x s = Inr t"
    then show "map_of t p = map_of c p"
      using cache_step_other [of g net x s t p] assms(2) by auto
  qed simp
  then show ?thesis .
qed

lemma cache_fold_cached:
  assumes "foldM (cache_step g net) qs c = Inr c'" "p \<in> set qs"
  shows "map_of c' p \<noteq> None"
  using assms
proof (induction qs arbitrary: c)
  case Nil
  then show ?case by simp
next
  case (Cons q qs)
  from Cons.prems(1) obtain c1 where c1: "cache_step g net q c = Inr c1"
    "foldM (cache_step g net) qs c1 = Inr c'"
    unfolding foldM.simps ebind_Inr_iff by blast
  show ?case
  proof (cases "p = q")
    case True
    then obtain v where "map_of c1 p = Some v" using cache_step_cached [OF c1(1)] by auto
    then show ?thesis using cache_fold_keeps [OF c1(2)] by auto
  next
    case False
    then show ?thesis using Cons.IH [OF c1(2)] Cons.prems(2) by auto
  qed
qed


subsection \<open>Attaching copies of the cached facts\<close>

definition cached :: "(node list \<times> PropagatedInfo) list \<Rightarrow> node list \<Rightarrow> PropagatedInfo" where
  "cached c p = the (map_of c p)"

lemma upt_head: "[n..<n + Suc k] = n # [Suc n..<Suc n + k]"
  by (simp add: upt_rec [of n])

lemma upt_split: "[n..<n + a] @ [n + a..<n + (a + b)] = [n..<n + (a + b)]"
  using upt_add_eq_append [of n "n + a" b] by (simp add: add.assoc)

lemma copy_cached_Inr:
  assumes "copy_cached c p h = Inr (a, h1)"
  shows "map_of c p \<noteq> None \<and> a = length h \<and> h1 = h @ [cached c p]"
  using assms
  by (auto simp: copy_cached_def dict_get_def alloc_def cached_def ebind_def split: option.splits)

lemma block_fold_Inr:
  assumes "foldM (block_path_step c) ps (binfo, h) = Inr (binfo', h')"
  shows "(\<forall>p \<in> set ps. map_of c p \<noteq> None) \<and> h' = h @ map (cached c) ps
       \<and> binfo' = binfo @ [length h..<length h + length ps]"
  using assms
proof (induction ps arbitrary: binfo h)
  case Nil
  then show ?case by simp
next
  case (Cons p ps)
  from Cons.prems obtain x where x: "block_path_step c p (binfo, h) = Inr x"
    and rest: "foldM (block_path_step c) ps x = Inr (binfo', h')"
    unfolding foldM.simps ebind_Inr_iff by blast
  from x obtain a h1 where cp: "copy_cached c p h = Inr (a, h1)" and xe: "x = (binfo @ [a], h1)"
    unfolding block_path_step_def prod.case ebind_Inr_iff by auto
  note c1 = copy_cached_Inr [OF cp]
  from Cons.IH [OF rest [unfolded xe]] c1
  show ?case using upt_head [of "length h" "length ps"] by simp
qed

lemma order_path_fold_Inr:
  assumes "foldM (order_path_step c) ps (ns, pinfo, h) = Inr (ns', pinfo', h')"
  shows "(\<forall>p \<in> set ps. map_of c p \<noteq> None) \<and> h' = h @ map (cached c) ps
       \<and> ns' = ns @ [length h..<length h + length ps]
       \<and> pinfo' = pinfo @ [length h..<length h + length ps]"
  using assms
proof (induction ps arbitrary: ns pinfo h)
  case Nil
  then show ?case by simp
next
  case (Cons p ps)
  from Cons.prems obtain x where x: "order_path_step c p (ns, pinfo, h) = Inr x"
    and rest: "foldM (order_path_step c) ps x = Inr (ns', pinfo', h')"
    unfolding foldM.simps ebind_Inr_iff by blast
  from x obtain a h1 where cp: "copy_cached c p h = Inr (a, h1)"
    and xe: "x = (ns @ [a], pinfo @ [a], h1)"
    unfolding order_path_step_def prod.case ebind_Inr_iff by auto
  note c1 = copy_cached_Inr [OF cp]
  from Cons.IH [OF rest [unfolded xe]] c1
  show ?case using upt_head [of "length h" "length ps"] by simp
qed

lemma order_set_fold_Inr:
  assumes "foldM (order_set_step c) pss (oinfo, pinfo, h) = Inr (oinfo', pinfo', h')"
  shows "(\<forall>p \<in> set (concat pss). map_of c p \<noteq> None) \<and> h' = h @ map (cached c) (concat pss)
       \<and> pinfo' = pinfo @ [length h..<length h + length (concat pss)]
       \<and> length oinfo' = length oinfo + length pss"
  using assms
proof (induction pss arbitrary: oinfo pinfo h)
  case Nil
  then show ?case by simp
next
  case (Cons ps pss)
  from Cons.prems obtain x where x: "order_set_step c ps (oinfo, pinfo, h) = Inr x"
    and rest: "foldM (order_set_step c) pss x = Inr (oinfo', pinfo', h')"
    unfolding foldM.simps ebind_Inr_iff by blast
  from x obtain y where y: "foldM (order_path_step c) ps ([], pinfo, h) = Inr y"
    and xe: "x = (case y of (new_set, pinfo1, h1) \<Rightarrow> (oinfo @ [new_set], pinfo1, h1))"
    unfolding order_set_step_def prod.case ebind_Inr_iff by (auto split: prod.splits)
  obtain ns pinfo1 h1 where ye: "y = (ns, pinfo1, h1)" by (cases y)
  note p1 = order_path_fold_Inr [OF y [unfolded ye]]
  from Cons.IH [OF rest [unfolded xe ye prod.case]] p1
  show ?case using upt_split [of "length h" "length ps" "length (concat pss)"] by (auto simp: add.assoc)
qed


subsection \<open>The references attached to an entry\<close>

definition infos :: "'n net_info \<Rightarrow> nat set" where
  "infos e = set (case paths_info e of None \<Rightarrow> [] | Some l \<Rightarrow> l)
           \<union> set (case block_info e of None \<Rightarrow> [] | Some l \<Rightarrow> l)"

definition store_ok :: "store \<Rightarrow> bool" where
  "store_ok h = (\<forall>x \<in> set h. pi_prev x = None \<and> pi_as_path_len x = length (pi_as_path x))"

lemma eval_entry_Inr:
  assumes "eval_entry g net attrs (h, c) = Inr (attrs', h', c')"
  shows "foldM (cache_step g net) (set_union (info_paths attrs) (info_block attrs)) c = Inr c'"
    and "h' = h @ map (cached c') (concat (info_order attrs)) @ map (cached c') (info_block attrs)"
    and "\<forall>p \<in> set (concat (info_order attrs)) \<union> set (info_block attrs). map_of c' p \<noteq> None"
    and "paths_info attrs' = Some [length h..<length h + length (concat (info_order attrs))]"
    and "block_info attrs' =
           Some [length h + length (concat (info_order attrs))..<
                 length h + length (concat (info_order attrs)) + length (info_block attrs)]"
    and "info_order attrs' = info_order attrs" "info_paths attrs' = info_paths attrs"
      "info_block attrs' = info_block attrs" "origins attrs' = origins attrs"
proof -
  from assms obtain c1 x y where
    c1: "foldM (cache_step g net) (set_union (info_paths attrs) (info_block attrs)) c = Inr c1"
    and x: "foldM (order_set_step c1) (info_order attrs) ([], [], h) = Inr x"
    and y: "(case x of (oinfo, pinfo, h1) \<Rightarrow>
              ebind (foldM (block_path_step c1) (info_block attrs) ([], h1)) (\<lambda>(binfo, h2).
                Inr (attrs\<lparr>order_info := Some oinfo, block_info := Some binfo,
                          paths_info := Some pinfo\<rparr>, h2, c1))) = Inr (attrs', h', c')"
    unfolding eval_entry_def prod.case ebind_Inr_iff by blast
  obtain oinfo pinfo h1 where xe: "x = (oinfo, pinfo, h1)" by (cases x)
  have "\<exists>binfo h2. foldM (block_path_step c1) (info_block attrs) ([], h1) = Inr (binfo, h2)
          \<and> attrs' = attrs\<lparr>order_info := Some oinfo, block_info := Some binfo,
                               paths_info := Some pinfo\<rparr>
          \<and> h' = h2 \<and> c' = c1"
    using y unfolding xe prod.case
    by (cases "foldM (block_path_step c1) (info_block attrs) ([], h1)")
       (auto simp: ebind_def)
  then obtain binfo h2 where
    z: "foldM (block_path_step c1) (info_block attrs) ([], h1) = Inr (binfo, h2)"
    and res: "attrs' = attrs\<lparr>order_info := Some oinfo, block_info := Some binfo,
                               paths_info := Some pinfo\<rparr>" "h' = h2" "c' = c1"
    by (elim exE conjE)
  note ze = refl [of "(binfo, h2)"]
  note o = order_set_fold_Inr [OF x [unfolded xe]]
  note b = block_fold_Inr [OF z]
  show "foldM (cache_step g net) (set_union (info_paths attrs) (info_block attrs)) c = Inr c'"
    using c1 res by simp
  show "h' = h @ map (cached c') (concat (info_order attrs)) @ map (cached c') (info_block attrs)"
    using o b res by simp
  show "\<forall>p \<in> set (concat (info_order attrs)) \<union> set (info_block attrs). map_of c' p \<noteq> None"
    using o b res by auto
  show "paths_info attrs' = Some [length h..<length h + length (concat (info_order attrs))]"
    using o res by simp
  show "block_info attrs' =
           Some [length h + length (concat (info_order attrs))..<
                 length h + length (concat (info_order attrs)) + length (info_block attrs)]"
    using o b res by simp
  show "info_order attrs' = info_order attrs" "info_paths attrs' = info_paths attrs"
      "info_block attrs' = info_block attrs" "origins attrs' = origins attrs"
    using res by simp_all
qed

lemma eval_entry_infos:
  assumes "eval_entry g net attrs (h, c) = Inr (attrs', h', c')"
  shows "infos attrs' = {length h..<length h'}"
proof -
  note e = eval_entry_Inr [OF assms]
  have "length h' = length h + length (concat (info_order attrs)) + length (info_block attrs)"
    using e(2) by simp
  then show ?thesis unfolding infos_def e(4,5) by auto
qed

lemma eval_entry_ok:
  assumes "eval_entry g net attrs (h, c) = Inr (attrs', h', c')" "cache_ok c" "store_ok h"
  shows "cache_ok c' \<and> store_ok h'"
proof -
  note e = eval_entry_Inr [OF assms(1)]
  have c': "cache_ok c'" using e(1) assms(2) by (rule cache_fold_ok)
  have "pi_prev (cached c' p) = None \<and> pi_as_path_len (cached c' p) = length (pi_as_path (cached c' p))"
    if "map_of c' p \<noteq> None" for p
    using that c' by (auto simp: cache_ok_def cached_def)
  then have "\<forall>p \<in> set (concat (info_order attrs)) \<union> set (info_block attrs).
      pi_prev (cached c' p) = None \<and> pi_as_path_len (cached c' p) = length (pi_as_path (cached c' p))"
    using e(3) by blast
  then have "store_ok h'" using assms(3) unfolding e(2) store_ok_def by auto
  then show ?thesis using c' by simp
qed

lemma eval_entry_cache_keeps:
  assumes "eval_entry g net attrs (h, c) = Inr (attrs', h', c')" "map_of c p = Some v"
  shows "map_of c' p = Some v"
  using eval_entry_Inr(1) [OF assms(1)] assms(2) by (rule cache_fold_keeps)

subsection \<open>References are allocated in stages\<close>

fun staged :: "('x \<Rightarrow> nat set) \<Rightarrow> nat \<Rightarrow> 'x list \<Rightarrow> nat \<Rightarrow> bool" where
  "staged A lo [] hi = (lo \<le> hi)"
| "staged A lo (x # xs) hi = (\<exists>mid. lo \<le> mid \<and> A x \<subseteq> {lo..<mid} \<and> staged A mid xs hi)"

lemma staged_bounds:
  assumes "staged A lo xs hi"
  shows "lo \<le> hi \<and> (\<forall>x \<in> set xs. A x \<subseteq> {lo..<hi})"
  using assms
proof (induction xs arbitrary: lo)
  case Nil
  then show ?case by simp
next
  case (Cons x xs)
  from Cons.prems obtain mid where m: "lo \<le> mid" "A x \<subseteq> {lo..<mid}" "staged A mid xs hi" by auto
  from Cons.IH [OF m(3)] m(1,2) show ?case by fastforce
qed



lemma mapM_dict_Cons_Inr:
  "mapM_dict f (kv # kvs) s = Inr (out, s') \<longleftrightarrow>
     (\<exists>v1 s1 rest. f (fst kv) (snd kv) s = Inr (v1, s1) \<and> mapM_dict f kvs s1 = Inr (rest, s')
        \<and> out = (fst kv, v1) # rest)"
proof (cases "f (fst kv) (snd kv) s")
  case (Inl e)
  then show ?thesis by (simp add: ebind_def)
next
  case (Inr x)
  obtain v1 s1 where x: "x = (v1, s1)" by (cases x)
  show ?thesis
  proof (cases "mapM_dict f kvs s1")
    case (Inl e)
    then show ?thesis using Inr x by (simp add: ebind_def)
  next
    case r: (Inr y)
    obtain rest s2 where y: "y = (rest, s2)" by (cases y)
    show ?thesis using Inr x r y by (auto simp: ebind_def)
  qed
qed

definition entry_addrs :: "prefix \<times> 'n net_info \<Rightarrow> nat set" where
  "entry_addrs kv = infos (snd kv)"

definition entry_done :: "prefix \<times> 'n net_info \<Rightarrow> bool" where
  "entry_done kv = (paths_info (snd kv) \<noteq> None \<and> block_info (snd kv) \<noteq> None)"

lemma eval_entries_Inr:
  assumes "mapM_dict (eval_entry g) nets (h, c) = Inr (nets', h', c')"
  shows "map fst nets' = map fst nets
       \<and> staged entry_addrs (length h) nets' (length h')
       \<and> (\<forall>kv \<in> set nets'. entry_done kv)
       \<and> (cache_ok c \<and> store_ok h \<longrightarrow> cache_ok c' \<and> store_ok h')
       \<and> (\<forall>p v. map_of c p = Some v \<longrightarrow> map_of c' p = Some v)"
  using assms
proof (induction nets arbitrary: h c nets')
  case Nil
  then show ?case by simp
next
  case (Cons kv nets)
  from Cons.prems [unfolded mapM_dict_Cons_Inr] obtain v1 s1 rest where
    step: "eval_entry g (fst kv) (snd kv) (h, c) = Inr (v1, s1)"
    and rest: "mapM_dict (eval_entry g) nets s1 = Inr (rest, h', c')"
    and out: "nets' = (fst kv, v1) # rest" by blast
  obtain h1 c1 where s1: "s1 = (h1, c1)" by (cases s1)
  note ih = Cons.IH [OF rest [unfolded s1]]
  note e = eval_entry_Inr [OF step [unfolded s1]]
  have addrs: "entry_addrs (fst kv, v1) \<subseteq> {length h..<length h1}"
    using eval_entry_infos [OF step [unfolded s1]] by (simp add: entry_addrs_def)
  have le: "length h \<le> length h1" using e(2) by simp
  have fin: "entry_done (fst kv, v1)" using e(4,5) by (simp add: entry_done_def)
  have ok: "cache_ok c \<and> store_ok h \<longrightarrow> cache_ok c1 \<and> store_ok h1"
    using eval_entry_ok [OF step [unfolded s1]] by blast
  have keep: "\<forall>p v. map_of c p = Some v \<longrightarrow> map_of c1 p = Some v"
    using eval_entry_cache_keeps [OF step [unfolded s1]] by blast
  have "staged entry_addrs (length h) nets' (length h')"
    unfolding out using ih addrs le by auto
  then show ?case using ih out fin ok keep by auto
qed

lemma eval_node_Inr:
  assumes "eval_node g n x s = Inr (x', s')"
  shows "\<exists>nets nets'. x = Some nets \<and> x' = Some nets' \<and> mapM_dict (eval_entry g) nets s = Inr (nets', s')"
proof (cases x)
  case None
  then show ?thesis using assms by (simp add: eval_node_def)
next
  case (Some nets)
  then show ?thesis using assms
    by (cases "mapM_dict (eval_entry g) nets s") (auto simp: eval_node_def ebind_def)
qed

definition node_addrs :: "'k \<times> (prefix \<times> 'n net_info) list option \<Rightarrow> nat set" where
  "node_addrs kx = (case snd kx of None \<Rightarrow> {} | Some nets \<Rightarrow> (\<Union>kv \<in> set nets. entry_addrs kv))"

definition node_done :: "'k \<times> (prefix \<times> 'n net_info) list option \<Rightarrow> bool" where
  "node_done kx = (\<exists>nets lo hi. snd kx = Some nets \<and> staged entry_addrs lo nets hi
                     \<and> (\<forall>kv \<in> set nets. entry_done kv))"

lemma eval_nodes_Inr:
  assumes "mapM_dict (eval_node g) nds (h, c) = Inr (nds', h', c')"
  shows "map fst nds' = map fst nds
       \<and> staged node_addrs (length h) nds' (length h')
       \<and> (\<forall>kx \<in> set nds'. node_done kx)
       \<and> (cache_ok c \<and> store_ok h \<longrightarrow> cache_ok c' \<and> store_ok h')
       \<and> (\<forall>p v. map_of c p = Some v \<longrightarrow> map_of c' p = Some v)"
  using assms
proof (induction nds arbitrary: h c nds')
  case Nil
  then show ?case by simp
next
  case (Cons kx nds)
  from Cons.prems [unfolded mapM_dict_Cons_Inr] obtain v1 s1 rest where
    step: "eval_node g (fst kx) (snd kx) (h, c) = Inr (v1, s1)"
    and rest: "mapM_dict (eval_node g) nds s1 = Inr (rest, h', c')"
    and out: "nds' = (fst kx, v1) # rest" by blast
  obtain h1 c1 where s1: "s1 = (h1, c1)" by (cases s1)
  note ih = Cons.IH [OF rest [unfolded s1]]
  from eval_node_Inr [OF step [unfolded s1]] obtain nets nets1 where
    n: "snd kx = Some nets" "v1 = Some nets1"
      "mapM_dict (eval_entry g) nets (h, c) = Inr (nets1, h1, c1)" by blast
  note e = eval_entries_Inr [OF n(3)]
  have st: "staged entry_addrs (length h) nets1 (length h1)" using e by simp
  note b = staged_bounds [OF st]
  have addrs: "node_addrs (fst kx, v1) \<subseteq> {length h..<length h1}"
    using b n(2) by (auto simp: node_addrs_def)
  have fin: "node_done (fst kx, v1)"
    using st e n(2) unfolding node_done_def by auto
  have "staged node_addrs (length h) nds' (length h')"
    unfolding out using ih addrs b by auto
  then show ?case using ih out fin e by auto
qed


subsection \<open>What the second loop leaves unchanged\<close>

lemma set_set_add: "set (set_add s x) = insert x (set s)"
  by (auto simp: set_add_def)

lemma set_set_union: "set (set_union s t) = set s \<union> set t"
  unfolding set_union_def by (induction t arbitrary: s) (auto simp: set_set_add)

definition strip :: "'n net_info \<Rightarrow> 'n net_info" where
  "strip e = e\<lparr>origins := None\<rparr>"

lemma infos_strip: "strip e = strip e' \<Longrightarrow> infos e = infos e'"
  unfolding strip_def infos_def
  by (metis net_info.select_convs(5) net_info.select_convs(6) net_info.surjective
      net_info.update_convs(7))

lemma strip_fields:
  assumes "strip e = strip e'"
  shows "paths_info e = paths_info e'" "block_info e = block_info e'"
proof -
  have "paths_info (strip e) = paths_info e" "block_info (strip e) = block_info e"
    "paths_info (strip e') = paths_info e'" "block_info (strip e') = block_info e'"
    by (simp_all add: strip_def)
  then show "paths_info e = paths_info e'" "block_info e = block_info e'"
    using assms by simp_all
qed

definition same_facts ::
  "(node, node net_info) merged_graph \<times> store \<Rightarrow> (node, node net_info) merged_graph \<times> store \<Rightarrow> bool" where
  "same_facts = (\<lambda>(mg1, h1) (mg, h).
     length h = length h1
     \<and> (\<forall>a < length h. (h ! a)\<lparr>pi_prev := None\<rparr> = (h1 ! a)\<lparr>pi_prev := None\<rparr>)
     \<and> map fst (mg_nodes mg) = map fst (mg_nodes mg1)
     \<and> (\<forall>n. map_sum id (map fst) (mg_nets mg n) = map_sum id (map fst) (mg_nets mg1 n))
     \<and> (\<forall>n net. map_sum id strip (mg_entry mg n net) = map_sum id strip (mg_entry mg1 n net)))"

lemma same_facts_refl: "same_facts x x"
  by (cases x) (simp add: same_facts_def)

lemma same_facts_trans: "same_facts x y \<Longrightarrow> same_facts y z \<Longrightarrow> same_facts x z"
  by (cases x; cases y; cases z) (simp add: same_facts_def)

lemma same_facts_fields:
  assumes "same_facts (mg1, h1) (mg, h)" "a < length h"
  shows "pi_path (h ! a) = pi_path (h1 ! a)" "pi_peer (h ! a) = pi_peer (h1 ! a)"
    "pi_as_path (h ! a) = pi_as_path (h1 ! a)" "pi_as_path_len (h ! a) = pi_as_path_len (h1 ! a)"
proof -
  have eq: "(h ! a)\<lparr>pi_prev := None\<rparr> = (h1 ! a)\<lparr>pi_prev := None\<rparr>"
    using assms by (simp add: same_facts_def)
  have "pi_path ((h ! a)\<lparr>pi_prev := None\<rparr>) = pi_path ((h1 ! a)\<lparr>pi_prev := None\<rparr>)"
    "pi_peer ((h ! a)\<lparr>pi_prev := None\<rparr>) = pi_peer ((h1 ! a)\<lparr>pi_prev := None\<rparr>)"
    "pi_as_path ((h ! a)\<lparr>pi_prev := None\<rparr>) = pi_as_path ((h1 ! a)\<lparr>pi_prev := None\<rparr>)"
    "pi_as_path_len ((h ! a)\<lparr>pi_prev := None\<rparr>) = pi_as_path_len ((h1 ! a)\<lparr>pi_prev := None\<rparr>)"
    unfolding eq by simp_all
  then show "pi_path (h ! a) = pi_path (h1 ! a)" "pi_peer (h ! a) = pi_peer (h1 ! a)"
    "pi_as_path (h ! a) = pi_as_path (h1 ! a)" "pi_as_path_len (h ! a) = pi_as_path_len (h1 ! a)"
    by simp_all
qed

lemma same_facts_entry:
  assumes "same_facts (mg1, h1) (mg, h)" "mg_entry mg n net = Inr e"
  shows "\<exists>e1. mg_entry mg1 n net = Inr e1 \<and> strip e1 = strip e"
proof -
  have "map_sum id strip (mg_entry mg n net) = map_sum id strip (mg_entry mg1 n net)"
    using assms(1) by (simp add: same_facts_def)
  then show ?thesis using assms(2) by (cases "mg_entry mg1 n net") auto
qed

lemma same_facts_entry_rev:
  assumes "same_facts (mg1, h1) (mg, h)" "mg_entry mg1 n net = Inr e1"
  shows "\<exists>e. mg_entry mg n net = Inr e \<and> strip e1 = strip e"
proof -
  have "map_sum id strip (mg_entry mg n net) = map_sum id strip (mg_entry mg1 n net)"
    using assms(1) by (simp add: same_facts_def)
  then show ?thesis using assms(2) by (cases "mg_entry mg n net") auto
qed

lemma same_facts_entry_err:
  assumes "same_facts (mg1, h1) (mg, h)" "mg_entry mg1 n net = Inl x"
  shows "mg_entry mg n net = Inl x"
proof -
  have "map_sum id strip (mg_entry mg n net) = map_sum id strip (mg_entry mg1 n net)"
    using assms(1) by (simp add: same_facts_def)
  then show ?thesis using assms(2) by (cases "mg_entry mg n net") auto
qed

definition refs_valid :: "(node, node net_info) merged_graph \<times> store \<Rightarrow> bool" where
  "refs_valid = (\<lambda>(mg1, h1). \<forall>n net e. mg_entry mg1 n net = Inr e \<longrightarrow> infos e \<subseteq> {..<length h1})"

lemma find_prev_prop_same:
  assumes sf: "same_facts (mg1, h1) (mg, h)" and v: "refs_valid (mg1, h1)" and a: "a < length h"
  shows "find_prev_prop g mg h n net a = find_prev_prop g mg1 h1 n net a"
proof -
  note fa = same_facts_fields [OF sf a]
  have inner: "ebind (mg_entry mg nb net) (\<lambda>neighbor_attrs.
             ebind (opt_get (paths_info neighbor_attrs)) (\<lambda>pinfo.
             ebind (opt_get (block_info neighbor_attrs)) (\<lambda>binfo.
               Inr (find (\<lambda>b. butlast (pi_path (h1 ! a)) = pi_path (h ! b))
                      (set_union pinfo binfo)))))
        = ebind (mg_entry mg1 nb net) (\<lambda>neighbor_attrs.
             ebind (opt_get (paths_info neighbor_attrs)) (\<lambda>pinfo.
             ebind (opt_get (block_info neighbor_attrs)) (\<lambda>binfo.
               Inr (find (\<lambda>b. butlast (pi_path (h1 ! a)) = pi_path (h1 ! b))
                      (set_union pinfo binfo)))))" for nb
  proof (cases "mg_entry mg1 nb net")
    case (Inl x)
    then show ?thesis using same_facts_entry_err [OF sf Inl] by (simp add: ebind_def)
  next
    case (Inr e1)
    from same_facts_entry_rev [OF sf Inr] obtain e where
      e: "mg_entry mg nb net = Inr e" "strip e1 = strip e" by blast
    note f = strip_fields [OF e(2)]
    show ?thesis
    proof (cases "paths_info e1")
      case None
      then have "paths_info e = None" using f by simp
      then show ?thesis using Inr e(1) None by (simp add: ebind_def opt_get_def)
    next
      case pin: (Some pinfo)
      then have pe: "paths_info e = Some pinfo" using f by simp
      show ?thesis
      proof (cases "block_info e1")
        case None
        then have "block_info e = None" using f by simp
        then show ?thesis using Inr e(1) None pin pe by (simp add: ebind_def opt_get_def)
      next
        case bin: (Some binfo)
        then have be: "block_info e = Some binfo" using f by simp
        have "infos e1 \<subseteq> {..<length h1}" using v Inr by (simp add: refs_valid_def)
        moreover have "infos e1 = set pinfo \<union> set binfo" using pin bin by (simp add: infos_def)
        ultimately have sub: "set (set_union pinfo binfo) \<subseteq> {..<length h1}"
          by (simp add: set_set_union)
        have len: "length h = length h1" using sf by (simp add: same_facts_def)
        have "find (\<lambda>b. butlast (pi_path (h1 ! a)) = pi_path (h ! b)) (set_union pinfo binfo)
            = find (\<lambda>b. butlast (pi_path (h1 ! a)) = pi_path (h1 ! b)) (set_union pinfo binfo)"
        proof (rule find_cong [OF refl])
          fix b assume "b \<in> set (set_union pinfo binfo)"
          then have "b < length h" using sub len by auto
          then show "(butlast (pi_path (h1 ! a)) = pi_path (h ! b))
                   = (butlast (pi_path (h1 ! a)) = pi_path (h1 ! b))"
            using same_facts_fields(1) [OF sf] by simp
        qed
        then show ?thesis using Inr e(1) pin bin pe be by (simp add: ebind_def opt_get_def)
      qed
    qed
  qed
  show ?thesis
    unfolding find_prev_prop_def Let_def fa
    using inner by (simp cong: option.case_cong)
qed


lemma map_of_map_keyed:
  "map_of (map (\<lambda>(k, x). if k = n then (k, f x) else (k, x)) l) k' =
     (if k' = n then map_option f (map_of l k') else map_of l k')"
  by (induction l) auto

lemma mg_set_entry_nodes: "map fst (mg_nodes (mg_set_entry mg n net v)) = map fst (mg_nodes mg)"
  by (auto simp: mg_set_entry_def)

lemma mg_set_entry_nets:
  "mg_nets (mg_set_entry mg n net v) n' =
     (if n' = n then map_sum id (AList.update net v) (mg_nets mg n) else mg_nets mg n')"
proof -
  have "map_of (mg_nodes (mg_set_entry mg n net v)) n' =
     (if n' = n then map_option (map_option (AList.update net v)) (map_of (mg_nodes mg) n')
      else map_of (mg_nodes mg) n')"
    unfolding mg_set_entry_def
    using map_of_map_keyed [of n "map_option (AList.update net v)" "mg_nodes mg" n']
    by (simp add: case_prod_unfold)
  then show ?thesis by (auto simp: mg_nets_def split: option.splits)
qed

lemma mg_set_entry_entry:
  assumes "mg_entry mg n net = Inr e0"
  shows "mg_entry (mg_set_entry mg n net v) n' net' =
           (if n' = n \<and> net' = net then Inr v else mg_entry mg n' net')"
proof -
  from assms obtain nets where nets: "mg_nets mg n = Inr nets" "map_of nets net = Some e0"
    by (auto simp: mg_entry_def ebind_Inr_iff dict_get_def split: option.splits)
  show ?thesis
    using nets by (auto simp: mg_entry_def mg_set_entry_nets ebind_def dict_get_def update_conv')
qed

lemma mg_set_entry_keys:
  assumes "mg_entry mg n net = Inr e0"
  shows "map_sum id (map fst) (mg_nets (mg_set_entry mg n net v) n')
       = map_sum id (map fst) (mg_nets mg n')"
proof -
  from assms obtain nets where nets: "mg_nets mg n = Inr nets" "map_of nets net = Some e0"
    by (auto simp: mg_entry_def ebind_Inr_iff dict_get_def split: option.splits)
  then have "(net, e0) \<in> set nets" by (auto dest: map_of_SomeD)
  then have "net \<in> fst ` set nets" by force
  then have "map fst (AList.update net v nets) = map fst nets" by (simp add: update_keys)
  then show ?thesis using nets(1) by (auto simp: mg_set_entry_nets)
qed

lemma prev_step_Inr:
  assumes "prev_step g n net a (mg, h) = Inr (mg', h')"
  shows "(length (pi_path (h ! a)) < 2 \<and> mg' = mg \<and> h' = h)
       \<or> (\<not> length (pi_path (h ! a)) < 2
           \<and> (\<exists>origin e og. find_prev_prop g mg h n net a = Inr origin \<and> mg_entry mg n net = Inr e
                 \<and> mg' = mg_set_entry mg n net (e\<lparr>origins := Some og\<rparr>)
                 \<and> h' = h[a := (h ! a)\<lparr>pi_prev := origin\<rparr>]))"
proof (cases "length (pi_path (h ! a)) < 2")
  case True
  then show ?thesis using assms by (simp add: prev_step_def)
next
  case False
  from assms False obtain origin where o: "find_prev_prop g mg h n net a = Inr origin"
    by (cases "find_prev_prop g mg h n net a") (auto simp: prev_step_def ebind_def)
  from assms False o obtain e where e: "mg_entry mg n net = Inr e"
    by (cases "mg_entry mg n net") (auto simp: prev_step_def ebind_def)
  show ?thesis using assms False o e by (auto simp: prev_step_def ebind_def)
qed

lemma prev_step_same:
  assumes "prev_step g n net a (mg, h) = Inr (mg', h')"
  shows "same_facts (mg, h) (mg', h')"
  using prev_step_Inr [OF assms]
proof (elim disjE conjE exE)
  assume "mg' = mg" "h' = h"
  then show ?thesis by (simp add: same_facts_refl)
next
  fix origin e og
  assume e: "mg_entry mg n net = Inr e"
    and mg': "mg' = mg_set_entry mg n net (e\<lparr>origins := Some og\<rparr>)"
    and h': "h' = h[a := (h ! a)\<lparr>pi_prev := origin\<rparr>]"
  have 1: "length h' = length h" using h' by simp
  have 2: "\<forall>b < length h'. (h' ! b)\<lparr>pi_prev := None\<rparr> = (h ! b)\<lparr>pi_prev := None\<rparr>"
  proof (intro allI impI)
    fix b assume "b < length h'"
    then show "(h' ! b)\<lparr>pi_prev := None\<rparr> = (h ! b)\<lparr>pi_prev := None\<rparr>"
      unfolding h' by (cases "b = a") simp_all
  qed
  have 3: "map fst (mg_nodes mg') = map fst (mg_nodes mg)" using mg' by (simp add: mg_set_entry_nodes)
  have 4: "\<forall>n'. map_sum id (map fst) (mg_nets mg' n') = map_sum id (map fst) (mg_nets mg n')"
    using mg' mg_set_entry_keys [OF e] by simp
  have 5: "\<forall>n' net'. map_sum id strip (mg_entry mg' n' net') = map_sum id strip (mg_entry mg n' net')"
    using mg' e by (auto simp: mg_set_entry_entry [OF e] strip_def)
  show ?thesis unfolding same_facts_def prod.case using 1 2 3 4 5 by blast
qed


subsection \<open>The invariant of the second loop\<close>

definition prev_ok ::
  "NetworkGraph \<Rightarrow> (node, node net_info) merged_graph \<times> store \<Rightarrow> store \<Rightarrow> bool" where
  "prev_ok g = (\<lambda>(mg1, h1) h.
     \<forall>a < length h. \<forall>b. pi_prev (h ! a) = Some b \<longrightarrow>
       (\<exists>n net e. mg_entry mg1 n net = Inr e \<and> a \<in> infos e
          \<and> find_prev_prop g mg1 h1 n net a = Inr (Some b)))"

definition phase2_inv ::
  "NetworkGraph \<Rightarrow> (node, node net_info) merged_graph \<times> store
     \<Rightarrow> (node, node net_info) merged_graph \<times> store \<Rightarrow> bool" where
  "phase2_inv g base st = (same_facts base st \<and> prev_ok g base (snd st))"

lemma same_facts_infos:
  assumes "same_facts (mg1, h1) (mg, h)" "mg_entry mg n net = Inr e"
  shows "\<exists>e1. mg_entry mg1 n net = Inr e1 \<and> infos e1 = infos e"
  using same_facts_entry [OF assms] infos_strip by blast

lemma prev_step_inv:
  assumes v: "refs_valid (mg1, h1)" and inv: "phase2_inv g (mg1, h1) (mg, h)"
    and e: "mg_entry mg n net = Inr e" and a: "a \<in> infos e"
    and step: "prev_step g n net a (mg, h) = Inr (mg', h')"
  shows "phase2_inv g (mg1, h1) (mg', h')"
proof -
  have sf: "same_facts (mg1, h1) (mg, h)" and pk: "prev_ok g (mg1, h1) h"
    using inv by (simp_all add: phase2_inv_def)
  have sf': "same_facts (mg1, h1) (mg', h')"
    using sf prev_step_same [OF step] by (rule same_facts_trans)
  from same_facts_infos [OF sf e] obtain e1 where
    e1: "mg_entry mg1 n net = Inr e1" "infos e1 = infos e" by blast
  have len: "length h = length h1" using sf by (simp add: same_facts_def)
  have "infos e1 \<subseteq> {..<length h1}" using v e1(1) by (simp add: refs_valid_def)
  then have alt: "a < length h" using e1(2) a len by auto
  have "prev_ok g (mg1, h1) h'"
    using prev_step_Inr [OF step]
  proof (elim disjE conjE exE)
    assume "h' = h"
    then show ?thesis using pk by simp
  next
    fix origin e' og
    assume o: "find_prev_prop g mg h n net a = Inr origin"
      and h': "h' = h[a := (h ! a)\<lparr>pi_prev := origin\<rparr>]"
    have o1: "find_prev_prop g mg1 h1 n net a = Inr origin"
      using find_prev_prop_same [OF sf v alt] o by simp
    show ?thesis
      unfolding prev_ok_def prod.case
    proof (intro allI impI)
      fix x b
      assume x: "x < length h'" and pb: "pi_prev (h' ! x) = Some b"
      show "\<exists>n net e. mg_entry mg1 n net = Inr e \<and> x \<in> infos e
              \<and> find_prev_prop g mg1 h1 n net x = Inr (Some b)"
      proof (cases "x = a")
        case True
        then have "origin = Some b" using pb alt unfolding h' by simp
        then show ?thesis using e1 a o1 True by blast
      next
        case False
        then have "pi_prev (h ! x) = Some b" "x < length h" using pb x unfolding h' by simp_all
        then show ?thesis using pk unfolding prev_ok_def prod.case by blast
      qed
    qed
  qed
  then show ?thesis using sf' by (simp add: phase2_inv_def)
qed

lemma prev_entry_inv:
  assumes v: "refs_valid (mg1, h1)" and inv: "phase2_inv g (mg1, h1) (mg, h)"
    and run: "prev_entry g n net (mg, h) = Inr st'"
  shows "phase2_inv g (mg1, h1) st'"
proof -
  from run obtain attrs pinfo binfo where
    attrs: "mg_entry mg n net = Inr attrs" "opt_get (paths_info attrs) = Inr pinfo"
      "opt_get (block_info attrs) = Inr binfo"
    and fold: "foldM (prev_step g n net) (set_union pinfo binfo) (mg, h) = Inr st'"
    unfolding prev_entry_def prod.case ebind_Inr_iff by blast
  have sf: "same_facts (mg1, h1) (mg, h)" using inv by (simp add: phase2_inv_def)
  from same_facts_infos [OF sf attrs(1)] obtain e1 where
    e1: "mg_entry mg1 n net = Inr e1" "infos e1 = infos attrs" by blast
  have ia: "infos attrs = set (set_union pinfo binfo)"
    using attrs(2,3) by (auto simp: infos_def opt_get_def set_set_union split: option.splits)
  show ?thesis
    using fold inv
  proof (rule foldM_inv)
    fix a s t
    assume a: "a \<in> set (set_union pinfo binfo)" and s: "phase2_inv g (mg1, h1) s"
      and t: "prev_step g n net a s = Inr t"
    obtain mgc hc where sc: "s = (mgc, hc)" by (cases s)
    obtain mgt ht where tc: "t = (mgt, ht)" by (cases t)
    have "same_facts (mg1, h1) (mgc, hc)" using s sc by (simp add: phase2_inv_def)
    from same_facts_entry_rev [OF this e1(1)] obtain ec where
      ec: "mg_entry mgc n net = Inr ec" "strip e1 = strip ec" by blast
    have "a \<in> infos ec" using a ia e1(2) infos_strip [OF ec(2)] by simp
    from prev_step_inv [OF v s [unfolded sc] ec(1) this t [unfolded sc tc]]
    show "phase2_inv g (mg1, h1) t" unfolding tc .
  qed
qed

lemma prev_node_inv:
  assumes v: "refs_valid (mg1, h1)" and inv: "phase2_inv g (mg1, h1) st"
    and run: "prev_node g n st = Inr st'"
  shows "phase2_inv g (mg1, h1) st'"
proof -
  obtain mg h where st: "st = (mg, h)" by (cases st)
  from run obtain nets :: "(prefix \<times> node net_info) list" where
    fold: "foldM (prev_entry g n) (map fst nets) (mg, h) = Inr st'"
    unfolding st prev_node_def prod.case ebind_Inr_iff by blast
  show ?thesis
    using fold inv [unfolded st]
  proof (rule foldM_inv)
    fix net s t
    assume s: "phase2_inv g (mg1, h1) s" and t: "prev_entry g n net s = Inr t"
    obtain mgc hc where sc: "s = (mgc, hc)" by (cases s)
    show "phase2_inv g (mg1, h1) t"
      using prev_entry_inv [OF v s [unfolded sc] t [unfolded sc]] .
  qed
qed

lemma phase2_inv_fold:
  assumes v: "refs_valid (mg1, h1)" and inv: "phase2_inv g (mg1, h1) st"
    and run: "foldM (prev_node g) ns st = Inr st'"
  shows "phase2_inv g (mg1, h1) st'"
  using run inv
proof (rule foldM_inv)
  fix n s t
  assume "phase2_inv g (mg1, h1) s" "prev_node g n s = Inr t"
  then show "phase2_inv g (mg1, h1) t" using prev_node_inv [OF v] by blast
qed


subsection \<open>What find\_prev\_prop returns\<close>



subsection \<open>The whole run\<close>

lemma mg_entry_mem:
  assumes "mg_entry mg n net = Inr e"
  shows "\<exists>nets. (n, Some nets) \<in> set (mg_nodes mg) \<and> (net, e) \<in> set nets"
  using assms
  by (auto simp: mg_entry_def mg_nets_def ebind_Inr_iff dict_get_def split: option.splits
      dest: map_of_SomeD)

lemma partial_eval_Inr:
  assumes "partial_eval_propagated_info g mg = Inr (mg2, h2, aps)"
  shows "\<exists>nds1 h1 c1.
           mapM_dict (eval_node g) (mg_nodes mg) ([], []) = Inr (nds1, h1, c1)
           \<and> foldM (prev_node g) (map fst nds1) (mg\<lparr>mg_nodes := nds1\<rparr>, h1) = Inr (mg2, h2)
           \<and> aps = remdups (map (\<lambda>kv. pi_as_path (snd kv)) c1)"
proof -
  from assms obtain x where x: "mapM_dict (eval_node g) (mg_nodes mg) ([], []) = Inr x"
    and r: "(case x of (nodes1, h, cache) \<Rightarrow>
     (let mg1 = mg\<lparr>mg_nodes := nodes1\<rparr>
      in ebind (foldM (prev_node g) (map fst (mg_nodes mg1)) (mg1, h)) (\<lambda>(mg2, h2).
           Inr (mg2, h2, remdups (map (\<lambda>kv. pi_as_path (snd kv)) cache))))) = Inr (mg2, h2, aps)"
    unfolding partial_eval_propagated_info_def ebind_Inr_iff by blast
  obtain nds1 h1 c1 where xe: "x = (nds1, h1, c1)" by (cases x)
  have "foldM (prev_node g) (map fst nds1) (mg\<lparr>mg_nodes := nds1\<rparr>, h1) = Inr (mg2, h2)
        \<and> aps = remdups (map (\<lambda>kv. pi_as_path (snd kv)) c1)"
    using r unfolding xe prod.case Let_def
    by (cases "foldM (prev_node g) (map fst nds1) (mg\<lparr>mg_nodes := nds1\<rparr>, h1)")
       (auto simp: ebind_def)
  then show ?thesis using x xe by blast
qed







definition run_on :: "NetworkGraph \<Rightarrow> (prefix \<times> node prop_graph) list
    \<Rightarrow> error + (node, node net_info) merged_graph \<times> store \<times> asn option list list" where
  "run_on g graphs = ebind (merge_graphs graphs) (partial_eval_propagated_info g)"

lemma run_on_Inr:
  assumes "run_on g graphs = Inr r"
  shows "\<exists>mg. merge_graphs graphs = Inr mg \<and> partial_eval_propagated_info g mg = Inr r"
  using assms unfolding run_on_def ebind_Inr_iff .



subsection \<open>Facts are copies of the cached facts\<close>

text \<open>
  Every fact of the store is a copy of the fact that the cache holds for its path.
\<close>

definition store_cached :: "store \<Rightarrow> (node list \<times> PropagatedInfo) list \<Rightarrow> bool" where
  "store_cached h c = (\<forall>x \<in> set h. map_of c (pi_path x) = Some x)"

lemma mapM_dict_inv:
  assumes "mapM_dict f kvs s = Inr (out, s')" "P s"
    and "\<And>k v s v' s'. P s \<Longrightarrow> f k v s = Inr (v', s') \<Longrightarrow> P s'"
  shows "P s'"
  using assms(1,2)
proof (induction kvs arbitrary: s out)
  case Nil
  then show ?case by simp
next
  case (Cons kv kvs)
  from Cons.prems(1) [unfolded mapM_dict_Cons_Inr] obtain v1 s1 rest where
    step: "f (fst kv) (snd kv) s = Inr (v1, s1)" and rest: "mapM_dict f kvs s1 = Inr (rest, s')"
    by blast
  have "P s1" using assms(3) [OF Cons.prems(2) step] .
  then show ?case using Cons.IH [OF rest] by simp
qed

lemma eval_entry_store_cached:
  assumes "eval_entry g net attrs (h, c) = Inr (attrs', h', c')"
    and "cache_ok c \<and> store_cached h c"
  shows "cache_ok c' \<and> store_cached h' c'"
proof -
  note e = eval_entry_Inr [OF assms(1)]
  have c': "cache_ok c'" using e(1) assms(2) cache_fold_ok by blast
  have old: "map_of c' (pi_path x) = Some x" if "x \<in> set h" for x
    using that assms(2) cache_fold_keeps [OF e(1)] by (auto simp: store_cached_def)
  have new: "map_of c' (pi_path (cached c' q)) = Some (cached c' q)"
    if "q \<in> set (concat (info_order attrs)) \<union> set (info_block attrs)" for q
  proof -
    from e(3) that obtain v where v: "map_of c' q = Some v" by blast
    then have "cached c' q = v" "pi_path v = q" using c' by (auto simp: cached_def cache_ok_def)
    then show ?thesis using v by simp
  qed
  have "store_cached h' c'"
    unfolding store_cached_def e(2) using old new by auto
  then show ?thesis using c' by simp
qed

lemma eval_node_store_cached:
  assumes "eval_node g n x (h, c) = Inr (x', h', c')"
    and "cache_ok c \<and> store_cached h c"
  shows "cache_ok c' \<and> store_cached h' c'"
proof -
  from eval_node_Inr [OF assms(1)] obtain nets nets' where
    run: "mapM_dict (eval_entry g) nets (h, c) = Inr (nets', h', c')" by blast
  have "(\<lambda>(h, c). cache_ok c \<and> store_cached h c) (h', c')"
  proof (rule mapM_dict_inv [OF run])
    show "(\<lambda>(h, c). cache_ok c \<and> store_cached h c) (h, c)" using assms(2) by simp
  next
    fix k v s v' s'
    assume "(\<lambda>(h, c). cache_ok c \<and> store_cached h c) s" "eval_entry g k v s = Inr (v', s')"
    then show "(\<lambda>(h, c). cache_ok c \<and> store_cached h c) s'"
      using eval_entry_store_cached by (cases s; cases s') auto
  qed
  then show ?thesis by simp
qed

lemma eval_nodes_store_cached:
  assumes run: "mapM_dict (eval_node g) nds ([], []) = Inr (nds', h', c')"
  shows "store_cached h' c'"
proof -
  have "(\<lambda>(h, c). cache_ok c \<and> store_cached h c) (h', c')"
  proof (rule mapM_dict_inv [OF run])
    show "(\<lambda>(h, c). cache_ok c \<and> store_cached h c) ([], [])"
      by (simp add: cache_ok_def store_cached_def)
  next
    fix k v s v' s'
    assume "(\<lambda>(h, c). cache_ok c \<and> store_cached h c) s" "eval_node g k v s = Inr (v', s')"
    then show "(\<lambda>(h, c). cache_ok c \<and> store_cached h c) s'"
      using eval_node_store_cached by (cases s; cases s') auto
  qed
  then show ?thesis by simp
qed

lemma partial_eval_same_facts:
  assumes run: "partial_eval_propagated_info g mg = Inr (mg2, h2, aps)"
  shows "\<exists>nds1 h1 c1. mapM_dict (eval_node g) (mg_nodes mg) ([], []) = Inr (nds1, h1, c1)
           \<and> same_facts (mg\<lparr>mg_nodes := nds1\<rparr>, h1) (mg2, h2)"
proof -
  from partial_eval_Inr [OF run] obtain nds1 h1 c1 where
    p1: "mapM_dict (eval_node g) (mg_nodes mg) ([], []) = Inr (nds1, h1, c1)"
    and p2: "foldM (prev_node g) (map fst nds1) (mg\<lparr>mg_nodes := nds1\<rparr>, h1) = Inr (mg2, h2)"
    by blast
  let ?mg1 = "mg\<lparr>mg_nodes := nds1\<rparr>"
  note e1 = eval_nodes_Inr [OF p1]
  have st: "staged node_addrs 0 nds1 (length h1)" using e1 by simp
  have ok: "store_ok h1" using e1 by (simp add: cache_ok_def store_ok_def)
  have valid: "refs_valid (?mg1, h1)"
    unfolding refs_valid_def prod.case
  proof (intro allI impI)
    fix n net e assume "mg_entry ?mg1 n net = Inr e"
    from mg_entry_mem [OF this] obtain nets where
      m: "(n, Some nets) \<in> set nds1" "(net, e) \<in> set nets" by auto
    have "node_addrs (n, Some nets) \<subseteq> {0..<length h1}" using staged_bounds [OF st] m(1) by blast
    moreover have "infos e \<subseteq> node_addrs (n, Some nets)"
      using m(2) by (auto simp: node_addrs_def entry_addrs_def)
    ultimately show "infos e \<subseteq> {..<length h1}" by auto
  qed
  have inv0: "phase2_inv g (?mg1, h1) (?mg1, h1)"
    using ok by (auto simp: phase2_inv_def same_facts_refl prev_ok_def store_ok_def)
  from phase2_inv_fold [OF valid inv0 p2] have "same_facts (?mg1, h1) (mg2, h2)"
    by (simp add: phase2_inv_def)
  then show ?thesis using p1 by blast
qed

lemma same_facts_rest:
  assumes "same_facts (mg1, h1) (mg, h)" "a < length h"
  shows "pi_ann_name (h ! a) = pi_ann_name (h1 ! a)"
    "pi_external_peer (h ! a) = pi_external_peer (h1 ! a)" "pi_egress (h ! a) = pi_egress (h1 ! a)"
proof -
  have eq: "(h ! a)\<lparr>pi_prev := None\<rparr> = (h1 ! a)\<lparr>pi_prev := None\<rparr>"
    using assms by (simp add: same_facts_def)
  have "pi_ann_name ((h ! a)\<lparr>pi_prev := None\<rparr>) = pi_ann_name ((h1 ! a)\<lparr>pi_prev := None\<rparr>)"
    "pi_external_peer ((h ! a)\<lparr>pi_prev := None\<rparr>) = pi_external_peer ((h1 ! a)\<lparr>pi_prev := None\<rparr>)"
    "pi_egress ((h ! a)\<lparr>pi_prev := None\<rparr>) = pi_egress ((h1 ! a)\<lparr>pi_prev := None\<rparr>)"
    unfolding eq by simp_all
  then show "pi_ann_name (h ! a) = pi_ann_name (h1 ! a)"
    "pi_external_peer (h ! a) = pi_external_peer (h1 ! a)" "pi_egress (h ! a) = pi_egress (h1 ! a)"
    by simp_all
qed

lemma partial_eval_same_path:
  assumes run: "partial_eval_propagated_info g mg = Inr (mg2, h2, aps)"
    and "a < length h2" "b < length h2" "pi_path (h2 ! a) = pi_path (h2 ! b)"
  shows "pi_ann_name (h2 ! a) = pi_ann_name (h2 ! b) \<and> pi_as_path (h2 ! a) = pi_as_path (h2 ! b)"
proof -
  from partial_eval_same_facts [OF run] obtain nds1 h1 c1 where
    p1: "mapM_dict (eval_node g) (mg_nodes mg) ([], []) = Inr (nds1, h1, c1)"
    and sf: "same_facts (mg\<lparr>mg_nodes := nds1\<rparr>, h1) (mg2, h2)" by blast
  have len: "length h2 = length h1" using sf by (simp add: same_facts_def)
  have sc: "store_cached h1 c1" using p1 by (rule eval_nodes_store_cached)
  have "pi_path (h1 ! a) = pi_path (h1 ! b)"
    using same_facts_fields(1) [OF sf] assms(2,3,4) by simp
  moreover have "map_of c1 (pi_path (h1 ! a)) = Some (h1 ! a)"
    "map_of c1 (pi_path (h1 ! b)) = Some (h1 ! b)"
    using sc assms(2,3) len by (simp_all add: store_cached_def)
  ultimately have "h1 ! a = h1 ! b" by (metis option.inject)
  then show ?thesis
    using same_facts_rest(1) [OF sf] same_facts_fields(3) [OF sf] assms(2,3) by simp
qed


lemma eval_entry_attaches_cached:
  assumes run: "eval_entry g net attrs (h, c) = Inr (attrs', h', c')"
    and v: "map_of c p = Some v"
    and p: "p \<in> set (concat (info_order attrs)) \<union> set (info_block attrs)"
  shows "\<exists>b \<in> infos attrs'. h' ! b = v"
proof -
  note e = eval_entry_Inr [OF run]
  let ?qs = "concat (info_order attrs) @ info_block attrs"
  have h': "h' = h @ map (cached c') ?qs" using e(2) by simp
  from p obtain i where i: "i < length ?qs" "?qs ! i = p"
    by (metis in_set_conv_nth set_append)
  have "map_of c' p = Some v" using eval_entry_cache_keeps [OF run v] .
  then have "cached c' p = v" by (simp add: cached_def)
  moreover have "h' ! (length h + i) = cached c' (?qs ! i)"
    using i(1) unfolding h' by (simp only: nth_append_length_plus nth_map)
  ultimately have "h' ! (length h + i) = v" using i(2) by simp
  moreover have "length h + i \<in> infos attrs'"
    using eval_entry_infos [OF run] i(1) unfolding h' by simp
  ultimately show ?thesis by blast
qed

text \<open>
  C9. The cache of \<open>partial_eval_propagated_info\<close> is keyed by the router path alone. A
  path that is already cached is skipped for every prefix: the cache is returned as it
  is and no announcement is looked up. A path that is not cached is cached with the fact
  built for the prefix being processed: its \<open>ann_name\<close> is that prefix and its AS path
  ends with the AS path of the origin's announcement for that prefix. The facts that an
  entry attaches for a cached path are copies of the cached fact, whatever the prefix of
  the entry. So on a run that returns, two facts with the same path carry the same
  \<open>ann_name\<close> and the same AS path.
\<close>

theorem facts_cached_by_path_alone:
  "(map_of c p = Some v \<longrightarrow> cache_step g net p c = Inr c)
   \<and> (map_of c p = None \<and> cache_step g net p c = Inr c' \<longrightarrow>
        (\<exists>v ext egr per asp anns ann.
           map_of c' p = Some v \<and> pi_ann_name v = net \<and> pi_path v = p
           \<and> get_as_path g p = Inr (ext, egr, per, asp)
           \<and> get_bgp_advertise g (hd p) = Inr anns
           \<and> find (\<lambda>ann. ann_prefix ann = net) anns = Some ann
           \<and> pi_as_path v = asp @ map Some (ann_as_path ann)))
   \<and> (eval_entry g net attrs (h, c) = Inr (attrs', h', c'') \<and> map_of c p = Some v
        \<and> p \<in> set (concat (info_order attrs)) \<union> set (info_block attrs) \<longrightarrow>
        (\<exists>b \<in> infos attrs'. h' ! b = v))
   \<and> (partial_eval_propagated_info g mg = Inr (mg2, h2, aps) \<and> a < length h2 \<and> b < length h2
        \<and> pi_path (h2 ! a) = pi_path (h2 ! b) \<longrightarrow>
        pi_ann_name (h2 ! a) = pi_ann_name (h2 ! b) \<and> pi_as_path (h2 ! a) = pi_as_path (h2 ! b))"
proof (intro conjI impI)
  assume "map_of c p = Some v"
  then show "cache_step g net p c = Inr c" by (simp add: cache_step_hit)
next
  assume a: "map_of c p = None \<and> cache_step g net p c = Inr c'"
  with cache_step_Inr [of g net p c c'] obtain r anns ann where
    r: "get_as_path g p = Inr r" "get_bgp_advertise g (hd p) = Inr anns"
      "find (\<lambda>ann. ann_prefix ann = net) anns = Some ann"
      "c' = AList.update p (built_info net p r ann) c"
    by auto
  obtain ext egr per asp where re: "r = (ext, egr, per, asp)" by (cases r)
  have "map_of c' p = Some (built_info net p r ann)" using r(4) by (simp add: update_conv')
  moreover have "pi_as_path (built_info net p r ann) = asp @ map Some (ann_as_path ann)"
    by (simp add: built_info_def re)
  ultimately show "\<exists>v ext egr per asp anns ann.
           map_of c' p = Some v \<and> pi_ann_name v = net \<and> pi_path v = p
           \<and> get_as_path g p = Inr (ext, egr, per, asp)
           \<and> get_bgp_advertise g (hd p) = Inr anns
           \<and> find (\<lambda>ann. ann_prefix ann = net) anns = Some ann
           \<and> pi_as_path v = asp @ map Some (ann_as_path ann)"
    using r(1,2,3) re built_info_ok(1,4) [of net p r ann] by blast
next
  assume "eval_entry g net attrs (h, c) = Inr (attrs', h', c'') \<and> map_of c p = Some v
        \<and> p \<in> set (concat (info_order attrs)) \<union> set (info_block attrs)"
  then show "\<exists>b \<in> infos attrs'. h' ! b = v"
    using eval_entry_attaches_cached by blast
next
  assume "partial_eval_propagated_info g mg = Inr (mg2, h2, aps) \<and> a < length h2 \<and> b < length h2
        \<and> pi_path (h2 ! a) = pi_path (h2 ! b)"
  then show "pi_ann_name (h2 ! a) = pi_ann_name (h2 ! b)" "pi_as_path (h2 ! a) = pi_as_path (h2 ! b)"
    using partial_eval_same_path by blast+
qed


text \<open>The fact of \<open>R1\<close> for its own one-router path, built for the prefix \<open>P1\<close>.\<close>

definition fact_r1 :: PropagatedInfo where
  "fact_r1 = \<lparr>pi_external_peer = None, pi_egress = None, pi_ann_name = ''P1'', pi_peer = None,
               pi_as_path = [Some 10, Some 5], pi_as_path_len = 2, pi_path = [''R1''],
               pi_prev = None\<rparr>"

definition entry_r1 :: "node net_info" where
  "entry_r1 = make_info \<lparr>order = [[[''R1'']]], paths = [[''R1'']], block = []\<rparr>"

theorem facts_cached_by_path_alone_witness:
  "(map_of [([''R1''], fact_r1)] [''R1''] = Some fact_r1
      \<and> cache_step topo_pair ''P2'' [''R1''] [([''R1''], fact_r1)] = Inr [([''R1''], fact_r1)])
   \<and> (map_of [] [''R1''] = (None :: PropagatedInfo option)
      \<and> cache_step topo_pair ''P1'' [''R1''] [] = Inr [([''R1''], fact_r1)]
      \<and> (\<exists>v ext egr per asp anns ann.
           map_of [([''R1''], fact_r1)] [''R1''] = Some v \<and> pi_ann_name v = ''P1''
           \<and> pi_path v = [''R1'']
           \<and> get_as_path topo_pair [''R1''] = Inr (ext, egr, per, asp)
           \<and> get_bgp_advertise topo_pair (hd [''R1'']) = Inr anns
           \<and> find (\<lambda>ann. ann_prefix ann = ''P1'') anns = Some ann
           \<and> pi_as_path v = asp @ map Some (ann_as_path ann)))
   \<and> (\<exists>attrs' h' c''.
         eval_entry topo_pair ''P2'' entry_r1 ([], [([''R1''], fact_r1)]) = Inr (attrs', h', c'')
         \<and> [''R1''] \<in> set (concat (info_order entry_r1)) \<union> set (info_block entry_r1)
         \<and> (\<exists>b \<in> infos attrs'. h' ! b = fact_r1))
   \<and> (\<exists>mg mg2 h2 aps.
         merge_graphs [(''P1'', pair_graph), (''P2'', pair_graph)] = Inr mg
         \<and> partial_eval_propagated_info topo_pair mg = Inr (mg2, h2, aps)
         \<and> (\<exists>e. mg_entry mg2 ''R2'' ''P2'' = Inr e \<and> 3 \<in> infos e)
         \<and> 3 < length h2 \<and> 2 < length h2
         \<and> pi_path (h2 ! 3) = pi_path (h2 ! 2)
         \<and> pi_ann_name (h2 ! 2) = ''P1''
         \<and> pi_ann_name (h2 ! 3) = ''P1''
         \<and> pi_as_path (h2 ! 3) = pi_as_path (h2 ! 2))"
proof (intro conjI)
  have m1: "map_of [([''R1''], fact_r1)] [''R1''] = Some fact_r1" by simp
  from facts_cached_by_path_alone [of "[([''R1''], fact_r1)]" "[''R1'']" fact_r1 topo_pair "''P2''"] m1
  show "cache_step topo_pair ''P2'' [''R1''] [([''R1''], fact_r1)] = Inr [([''R1''], fact_r1)]"
    by blast
  show "map_of [([''R1''], fact_r1)] [''R1''] = Some fact_r1" by (rule m1)
next
  show n0: "map_of [] [''R1''] = (None :: PropagatedInfo option)" by simp
  show s0: "cache_step topo_pair ''P1'' [''R1''] [] = Inr [([''R1''], fact_r1)]" by code_simp
  from facts_cached_by_path_alone [of "[]" "[''R1'']" _ topo_pair "''P1''" "[([''R1''], fact_r1)]"] n0 s0
  show "\<exists>v ext egr per asp anns ann.
           map_of [([''R1''], fact_r1)] [''R1''] = Some v \<and> pi_ann_name v = ''P1''
           \<and> pi_path v = [''R1'']
           \<and> get_as_path topo_pair [''R1''] = Inr (ext, egr, per, asp)
           \<and> get_bgp_advertise topo_pair (hd [''R1'']) = Inr anns
           \<and> find (\<lambda>ann. ann_prefix ann = ''P1'') anns = Some ann
           \<and> pi_as_path v = asp @ map Some (ann_as_path ann)"
    by blast
next
  have "(case eval_entry topo_pair ''P2'' entry_r1 ([], [([''R1''], fact_r1)]) of
           Inl e \<Rightarrow> False | Inr r \<Rightarrow> True)"
    by code_simp
  then obtain attrs' h' c'' where
    run: "eval_entry topo_pair ''P2'' entry_r1 ([], [([''R1''], fact_r1)]) = Inr (attrs', h', c'')"
    by (cases "eval_entry topo_pair ''P2'' entry_r1 ([], [([''R1''], fact_r1)])") auto
  have mem: "[''R1''] \<in> set (concat (info_order entry_r1)) \<union> set (info_block entry_r1)"
    by (simp add: entry_r1_def make_info_def)
  have m1: "map_of [([''R1''], fact_r1)] [''R1''] = Some fact_r1" by simp
  from facts_cached_by_path_alone
         [of "[([''R1''], fact_r1)]" "[''R1'']" fact_r1 topo_pair "''P2''" _ entry_r1 "[]" attrs' h' c'']
       run m1 mem
  have "\<exists>b \<in> infos attrs'. h' ! b = fact_r1" by blast
  then show "\<exists>attrs' h' c''.
         eval_entry topo_pair ''P2'' entry_r1 ([], [([''R1''], fact_r1)]) = Inr (attrs', h', c'')
         \<and> [''R1''] \<in> set (concat (info_order entry_r1)) \<union> set (info_block entry_r1)
         \<and> (\<exists>b \<in> infos attrs'. h' ! b = fact_r1)"
    using run mem by blast
next
  have ev: "ebind (run_on topo_pair [(''P1'', pair_graph), (''P2'', pair_graph)]) (\<lambda>(mg2, h2, aps).
      Inr (map pi_path h2, map pi_ann_name (take 3 h2),
           map_sum id paths_info (mg_entry mg2 ''R2'' ''P2'')))
    = Inr ([[''R1''], [''R1''], [''R1'', ''R2''], [''R1'', ''R2'']], [''P1'', ''P1'', ''P1''],
           Inr (Some [3]))"
    by code_simp
  then obtain r where r: "run_on topo_pair [(''P1'', pair_graph), (''P2'', pair_graph)] = Inr r"
    unfolding ebind_Inr_iff by blast
  obtain mg2 h2 aps where re: "r = (mg2, h2, aps)" by (cases r)
  from run_on_Inr [OF r [unfolded re]] obtain mg where
    mg: "merge_graphs [(''P1'', pair_graph), (''P2'', pair_graph)] = Inr mg"
    and run: "partial_eval_propagated_info topo_pair mg = Inr (mg2, h2, aps)" by blast
  from ev have pths: "map pi_path h2 = [[''R1''], [''R1''], [''R1'', ''R2''], [''R1'', ''R2'']]"
    and nms: "map pi_ann_name (take 3 h2) = [''P1'', ''P1'', ''P1'']"
    and en: "map_sum id paths_info (mg_entry mg2 ''R2'' ''P2'') = Inr (Some [3])"
    unfolding r re by (simp_all add: ebind_def)
  have len: "length h2 = 4" using arg_cong [OF pths, of length] by simp
  have p3: "pi_path (h2 ! 3) = [''R1'', ''R2'']" and p2: "pi_path (h2 ! 2) = [''R1'', ''R2'']"
    using arg_cong [OF pths, of "\<lambda>l. l ! 3"] arg_cong [OF pths, of "\<lambda>l. l ! 2"] len by simp_all
  have n2: "pi_ann_name (h2 ! 2) = ''P1''"
    using arg_cong [OF nms, of "\<lambda>l. l ! 2"] len by simp
  from en obtain e where e: "mg_entry mg2 ''R2'' ''P2'' = Inr e" "paths_info e = Some [3]"
    by (cases "mg_entry mg2 ''R2'' ''P2''") auto
  have ie: "3 \<in> infos e" using e(2) by (simp add: infos_def)
  from facts_cached_by_path_alone [of _ _ _ topo_pair _ _ _ _ _ _ _ mg mg2 h2 aps 3 2] run len p3 p2
  have same: "pi_ann_name (h2 ! 3) = pi_ann_name (h2 ! 2) \<and> pi_as_path (h2 ! 3) = pi_as_path (h2 ! 2)"
    by simp
  show "\<exists>mg mg2 h2 aps.
         merge_graphs [(''P1'', pair_graph), (''P2'', pair_graph)] = Inr mg
         \<and> partial_eval_propagated_info topo_pair mg = Inr (mg2, h2, aps)
         \<and> (\<exists>e. mg_entry mg2 ''R2'' ''P2'' = Inr e \<and> 3 \<in> infos e)
         \<and> 3 < length h2 \<and> 2 < length h2
         \<and> pi_path (h2 ! 3) = pi_path (h2 ! 2)
         \<and> pi_ann_name (h2 ! 2) = ''P1''
         \<and> pi_ann_name (h2 ! 3) = ''P1''
         \<and> pi_as_path (h2 ! 3) = pi_as_path (h2 ! 2)"
    using mg run e(1) ie len p3 p2 n2 same by auto
qed


subsection \<open>An error ends the run\<close>

lemma foldM_append_Inl:
  assumes "foldM f xs s = Inr s1" "f x s1 = Inl e"
  shows "foldM f (xs @ x # ys) s = Inl e"
  using assms
proof (induction xs arbitrary: s)
  case Nil
  then show ?case by (simp add: ebind_def)
next
  case (Cons y xs)
  from Cons.prems(1) obtain t where t: "f y s = Inr t" "foldM f xs t = Inr s1"
    unfolding foldM.simps ebind_Inr_iff by blast
  show ?case using Cons.IH [OF t(2) Cons.prems(2)] t(1) by (simp add: ebind_def)
qed

lemma mapM_dict_append_Inl:
  assumes "mapM_dict f pre s = Inr (out, s1)" "f k v s1 = Inl e"
  shows "mapM_dict f (pre @ (k, v) # post) s = Inl e"
  using assms
proof (induction pre arbitrary: s out)
  case Nil
  then show ?case by (simp add: ebind_def)
next
  case (Cons kv pre)
  from Cons.prems(1) [unfolded mapM_dict_Cons_Inr] obtain v1 t rest where
    t: "f (fst kv) (snd kv) s = Inr (v1, t)" "mapM_dict f pre t = Inr (rest, s1)" by blast
  show ?case using Cons.IH [OF t(2) Cons.prems(2)] t(1) by (simp add: ebind_def)
qed

text \<open>
  The assertion of the first loop, on a path that is not in the cache. Let the loop reach
  the router path \<open>p\<close> of the paths-or-block set of a node \<open>n\<close> for a prefix \<open>net\<close> while
  \<open>p\<close> is not in the cache, and let \<open>get_as_path\<close> derive its AS sequence. If the origin
  router \<open>hd p\<close> has no announcement for \<open>net\<close>, the whole run fails with the error that
  names \<open>net\<close>, the origin router and its announcements. If it has one, the step does not
  fail and caches the fact whose AS path is the derived sequence followed by the AS path of
  that announcement.
\<close>

lemma cache_miss_checks_announcement:
  assumes "mg_nodes mg = pre_nodes @ (n, Some (pre_nets @ (net, attrs) # post_nets)) # post_nodes"
    and "mapM_dict (eval_node g) pre_nodes ([], []) = Inr (out1, s1)"
    and "mapM_dict (eval_entry g) pre_nets s1 = Inr (out2, h2, c2)"
    and "set_union (info_paths attrs) (info_block attrs) = pre_paths @ p # post_paths"
    and "foldM (cache_step g net) pre_paths c2 = Inr c3"
    and "map_of c3 p = None"
    and "get_as_path g p = Inr (ext, egr, per, asp)"
    and "get_bgp_advertise g (hd p) = Inr anns"
  shows "(find (\<lambda>ann. ann_prefix ann = net) anns = None \<longrightarrow>
            partial_eval_propagated_info g mg = Inl (CouldntFindAnnouncement net (hd p) anns))
       \<and> (\<forall>ann. find (\<lambda>ann. ann_prefix ann = net) anns = Some ann \<longrightarrow>
            (\<exists>c4 v. cache_step g net p c3 = Inr c4 \<and> map_of c4 p = Some v \<and> pi_ann_name v = net
               \<and> pi_path v = p \<and> pi_as_path v = asp @ map Some (ann_as_path ann)
               \<and> pi_as_path_len v = length (pi_as_path v)))"
proof (intro conjI impI allI)
  assume none: "find (\<lambda>ann. ann_prefix ann = net) anns = None"
  let ?e = "CouldntFindAnnouncement net (hd p) anns"
  have "cache_step g net p c3 = Inl ?e"
    using cache_step_miss [OF assms(6,7,8), of net] none by simp
  with assms(5) have "foldM (cache_step g net) (pre_paths @ p # post_paths) c2 = Inl ?e"
    by (rule foldM_append_Inl)
  then have "eval_entry g net attrs (h2, c2) = Inl ?e"
    by (simp add: eval_entry_def assms(4) ebind_def)
  with assms(3) have "mapM_dict (eval_entry g) (pre_nets @ (net, attrs) # post_nets) s1 = Inl ?e"
    by (rule mapM_dict_append_Inl)
  then have "eval_node g n (Some (pre_nets @ (net, attrs) # post_nets)) s1 = Inl ?e"
    by (simp add: eval_node_def ebind_def)
  with assms(2) have "mapM_dict (eval_node g) (mg_nodes mg) ([], []) = Inl ?e"
    unfolding assms(1) by (rule mapM_dict_append_Inl)
  then show "partial_eval_propagated_info g mg = Inl ?e"
    by (simp add: partial_eval_propagated_info_def ebind_def)
next
  fix ann
  assume some: "find (\<lambda>ann. ann_prefix ann = net) anns = Some ann"
  let ?v = "built_info net p (ext, egr, per, asp) ann"
  have "cache_step g net p c3 = Inr (AList.update p ?v c3)"
    using cache_step_miss [OF assms(6,7,8), of net] some by simp
  moreover have "map_of (AList.update p ?v c3) p = Some ?v" by (simp add: update_conv')
  moreover have "pi_as_path ?v = asp @ map Some (ann_as_path ann)" by (simp add: built_info_def)
  ultimately show "\<exists>c4 v. cache_step g net p c3 = Inr c4 \<and> map_of c4 p = Some v \<and> pi_ann_name v = net
               \<and> pi_path v = p \<and> pi_as_path v = asp @ map Some (ann_as_path ann)
               \<and> pi_as_path_len v = length (pi_as_path v)"
    using built_info_ok [of net p "(ext, egr, per, asp)" ann] by blast
qed


definition entry_r2 :: "node net_info" where
  "entry_r2 = make_info \<lparr>order = [[[''R1'', ''R2'']]], paths = [[''R1'', ''R2'']], block = []\<rparr>"

definition merged_pair :: "prefix \<Rightarrow> (node, node net_info) merged_graph" where
  "merged_pair net = \<lparr>mg_nodes = [(''R1'', Some [(net, entry_r1)]), (''R2'', Some [(net, entry_r2)])],
                       mg_edges = [(''R1'', ''R2'')]\<rparr>"

text \<open>
  On \<open>topo_pair\<close> router \<open>R1\<close> announces \<open>P1\<close> only: the run on the graph of \<open>P2\<close> alone
  fails at the path \<open>(R1)\<close>, the run on the graph of \<open>P1\<close> caches its fact.
\<close>

lemma cache_miss_checks_announcement_demo:
  "merge_graphs [(''P2'', pair_graph)] = Inr (merged_pair ''P2'')
   \<and> get_bgp_advertise topo_pair ''R1'' = Inr [\<lparr>ann_prefix = ''P1'', ann_as_path = [5]\<rparr>]
   \<and> find (\<lambda>ann. ann_prefix ann = ''P2'') [\<lparr>ann_prefix = ''P1'', ann_as_path = [5]\<rparr>] = None
   \<and> partial_eval_propagated_info topo_pair (merged_pair ''P2'')
       = Inl (CouldntFindAnnouncement ''P2'' ''R1'' [\<lparr>ann_prefix = ''P1'', ann_as_path = [5]\<rparr>])
   \<and> merge_graphs [(''P1'', pair_graph)] = Inr (merged_pair ''P1'')
   \<and> find (\<lambda>ann. ann_prefix ann = ''P1'') [\<lparr>ann_prefix = ''P1'', ann_as_path = [5]\<rparr>]
       = Some \<lparr>ann_prefix = ''P1'', ann_as_path = [5]\<rparr>
   \<and> (\<exists>c4 v. cache_step topo_pair ''P1'' [''R1''] [] = Inr c4 \<and> map_of c4 [''R1''] = Some v
         \<and> pi_ann_name v = ''P1'' \<and> pi_path v = [''R1'']
         \<and> pi_as_path v = [Some 10, Some 5] \<and> pi_as_path_len v = length (pi_as_path v))"
proof -
  let ?anns = "[\<lparr>ann_prefix = ''P1'', ann_as_path = [5]\<rparr>]"
  have m2: "merge_graphs [(''P2'', pair_graph)] = Inr (merged_pair ''P2'')" by code_simp
  have m1: "merge_graphs [(''P1'', pair_graph)] = Inr (merged_pair ''P1'')" by code_simp
  have nodes: "mg_nodes (merged_pair net)
      = [] @ (''R1'', Some ([] @ (net, entry_r1) # [])) # [(''R2'', Some [(net, entry_r2)])]" for net
    by (simp add: merged_pair_def)
  have pre_nodes: "mapM_dict (eval_node topo_pair) [] ([], []) = Inr ([], [], [])" by simp
  have pre_nets: "mapM_dict (eval_entry topo_pair) [] ([], []) = Inr ([], [], [])" by simp
  have todo: "set_union (info_paths entry_r1) (info_block entry_r1) = [] @ [''R1''] # []"
    by code_simp
  have pre_paths: "foldM (cache_step topo_pair net) [] [] = Inr []" for net by simp
  have miss: "map_of ([] :: (node list \<times> PropagatedInfo) list) [''R1''] = None" by simp
  have asp: "get_as_path topo_pair [''R1''] = Inr (None, None, None, [Some 10])" by code_simp
  have adv: "get_bgp_advertise topo_pair (hd [''R1'']) = Inr ?anns" by code_simp
  have adv': "get_bgp_advertise topo_pair ''R1'' = Inr ?anns" using adv by simp
  have f2: "find (\<lambda>ann. ann_prefix ann = ''P2'') ?anns = None" by simp
  have f1: "find (\<lambda>ann. ann_prefix ann = ''P1'') ?anns = Some \<lparr>ann_prefix = ''P1'', ann_as_path = [5]\<rparr>"
    by simp
  from cache_miss_checks_announcement
    [OF nodes pre_nodes pre_nets todo pre_paths miss asp adv, of "''P2''"] f2
  have a: "partial_eval_propagated_info topo_pair (merged_pair ''P2'')
      = Inl (CouldntFindAnnouncement ''P2'' ''R1'' ?anns)"
    by simp
  from cache_miss_checks_announcement
    [OF nodes pre_nodes pre_nets todo pre_paths miss asp adv, of "''P1''"] f1
  have b: "\<exists>c4 v. cache_step topo_pair ''P1'' [''R1''] [] = Inr c4 \<and> map_of c4 [''R1''] = Some v
         \<and> pi_ann_name v = ''P1'' \<and> pi_path v = [''R1'']
         \<and> pi_as_path v = [Some 10, Some 5] \<and> pi_as_path_len v = length (pi_as_path v)"
    by simp
  show ?thesis using m2 adv' f2 a m1 f1 b by blast
qed

text \<open>
  C4. The claim: for every node, prefix and router path of the paths-or-block set of the
  node, the run aborts with the error that names the origin router and the prefix when the
  origin router of the path has no announcement for the prefix, and otherwise splices the
  AS path of the announcement onto the derived AS sequence. The code does not do so on a
  path that is already in the cache, and the cache is keyed by the path alone. Router
  \<open>R1\<close> announces \<open>P1\<close> only, and \<open>(R1)\<close> is a path of \<open>R1\<close> for \<open>P1\<close> and for \<open>P2\<close>. The
  run on the graph of \<open>P2\<close> alone fails with the error of the assertion. In the run on
  both graphs the fact of \<open>(R1)\<close> is cached when \<open>P1\<close> is evaluated; under \<open>P2\<close> the path
  is found in the cache and skipped before the announcements of \<open>R1\<close> are read, so the run
  returns, and every fact it returns carries the prefix \<open>P1\<close>.
\<close>

theorem cached_path_skips_announcement_check:
  "get_bgp_advertise topo_pair ''R1'' = Inr [\<lparr>ann_prefix = ''P1'', ann_as_path = [5]\<rparr>]
   \<and> find (\<lambda>ann. ann_prefix ann = ''P2'') [\<lparr>ann_prefix = ''P1'', ann_as_path = [5]\<rparr>] = None
   \<and> run_on topo_pair [(''P2'', pair_graph)]
       = Inl (CouldntFindAnnouncement ''P2'' ''R1'' [\<lparr>ann_prefix = ''P1'', ann_as_path = [5]\<rparr>])
   \<and> ebind (merge_graphs [(''P1'', pair_graph), (''P2'', pair_graph)]) (\<lambda>mg.
        Inr (map_sum id info_paths (mg_entry mg ''R1'' ''P2''))) = Inr (Inr [[''R1'']])
   \<and> ebind (run_on topo_pair [(''P1'', pair_graph), (''P2'', pair_graph)]) (\<lambda>(mg2, h2, aps).
        Inr (map pi_ann_name h2, map pi_path h2,
             map_sum id paths_info (mg_entry mg2 ''R1'' ''P2'')))
     = Inr ([''P1'', ''P1'', ''P1'', ''P1''],
            [[''R1''], [''R1''], [''R1'', ''R2''], [''R1'', ''R2'']],
            Inr (Some [1]))"
  by code_simp

end
